theory Spec2Isabelle
  imports Complex_Main "HOL-Library.FSet" "HOL-Library.List_Lexorder" "HOL-Library.Char_ord"
    "HOL-Library.Multiset"
begin

section \<open>Strings, runes and the tokenizer\<close>

text \<open>
  A Go string is read by the tokenizer rune by rune, so a text is modelled as the list of
  its runes. The rune type \<open>'r\<close> is left open, and the three functions of Go's
  \<open>unicode\<close> package that \<open>tokenize\<close> calls (their tables are not part of the
  repository) are taken as a parameter. Labels and tokens are strings of the same kind.
\<close>

record 'r unicode =
  ToLower :: "'r \<Rightarrow> 'r"
  IsLetter :: "'r \<Rightarrow> bool"
  IsNumber :: "'r \<Rightarrow> bool"

text \<open>
  \<open>strings.FieldsFunc\<close> of the Go standard library, following its loop: \<open>cur\<close> is
  the field that is open at the current rune (\<open>None\<close> when \<open>start < 0\<close>), \<open>spans\<close>
  the fields closed so far. A rune that satisfies \<open>f\<close> closes the open field, any other
  rune opens one or extends it, and the end of the string closes the last field.
\<close>

fun fieldsLoop :: "('r \<Rightarrow> bool) \<Rightarrow> 'r list \<Rightarrow> 'r list option \<Rightarrow> 'r list list \<Rightarrow> 'r list list" where
  "fieldsLoop f [] cur spans = (case cur of None \<Rightarrow> spans | Some w \<Rightarrow> spans @ [w])"
| "fieldsLoop f (c # cs) cur spans =
     (if f c then
        (case cur of
           None \<Rightarrow> fieldsLoop f cs None spans
         | Some w \<Rightarrow> fieldsLoop f cs None (spans @ [w]))
      else
        (case cur of
           None \<Rightarrow> fieldsLoop f cs (Some [c]) spans
         | Some w \<Rightarrow> fieldsLoop f cs (Some (w @ [c])) spans))"

definition FieldsFunc :: "('r \<Rightarrow> bool) \<Rightarrow> 'r list \<Rightarrow> 'r list list" where
  "FieldsFunc f s = fieldsLoop f s None []"

text \<open>\<open>strings.ToLower\<close> maps \<open>unicode.ToLower\<close> over the runes of the string.\<close>

definition strings_ToLower :: "'r unicode \<Rightarrow> 'r list \<Rightarrow> 'r list" where
  "strings_ToLower U text = map (ToLower U) text"

text \<open>The function literal that \<open>tokenize\<close> passes to \<open>FieldsFunc\<close>.\<close>

definition isSeparator :: "'r unicode \<Rightarrow> 'r \<Rightarrow> bool" where
  "isSeparator U r = (\<not> IsLetter U r \<and> \<not> IsNumber U r)"

definition tokenize :: "'r unicode \<Rightarrow> 'r list \<Rightarrow> 'r list list" where
  "tokenize U text = (let lower = strings_ToLower U text in FieldsFunc (isSeparator U) lower)"

text \<open>
  The specification's wording of the tokenizer, to compare with: after skipping a maximal
  run of separators, the next token is the maximal run of non-separators that follows.
\<close>

function splitRuns :: "('r \<Rightarrow> bool) \<Rightarrow> 'r list \<Rightarrow> 'r list list" where
  "splitRuns d xs =
     (case dropWhile d xs of
        [] \<Rightarrow> []
      | y # ys \<Rightarrow> takeWhile (\<lambda>r. \<not> d r) (y # ys) # splitRuns d (dropWhile (\<lambda>r. \<not> d r) (y # ys)))"
  by pat_completeness auto
termination
proof (relation "measure (\<lambda>(d, xs). length xs)")
  show "wf (measure (\<lambda>(d :: 'r \<Rightarrow> bool, xs). length xs))" by simp
next
  fix d :: "'r \<Rightarrow> bool" and xs y ys
  assume eq: "dropWhile d xs = y # ys"
  have "\<not> d y" using eq by (metis hd_dropWhile list.distinct(1) list.sel(1))
  then have "dropWhile (\<lambda>r. \<not> d r) (y # ys) = dropWhile (\<lambda>r. \<not> d r) ys" by simp
  moreover have "length (dropWhile (\<lambda>r. \<not> d r) ys) \<le> length ys" by (rule length_dropWhile_le)
  moreover have "length (y # ys) \<le> length xs" using eq by (metis length_dropWhile_le)
  ultimately show "((d, dropWhile (\<lambda>r. \<not> d r) (y # ys)), (d, xs)) \<in> measure (\<lambda>(d, xs). length xs)"
    by simp
qed

declare splitRuns.simps [simp del]

text \<open>ASCII tables on \<open>char\<close>, used to run the definitions on concrete inputs.\<close>

definition ascii :: "char unicode" where
  "ascii = \<lparr> ToLower = (\<lambda>c. if CHR ''A'' \<le> c \<and> c \<le> CHR ''Z'' then char_of (of_char c + (32::nat)) else c),
             IsLetter = (\<lambda>c. (CHR ''a'' \<le> c \<and> c \<le> CHR ''z'') \<or> (CHR ''A'' \<le> c \<and> c \<le> CHR ''Z'')),
             IsNumber = (\<lambda>c. CHR ''0'' \<le> c \<and> c \<le> CHR ''9'') \<rparr>"

text \<open>
  The specification's wording with digits in the place of numbers: the lower-cased text
  split at the maximal runs of runes that are neither letters nor digits, for a test
  \<open>isDigit\<close> of the decimal digits (Go's \<open>unicode.IsDigit\<close>, category \<open>Nd\<close>).
\<close>

definition splitAtNonDigits :: "'r unicode \<Rightarrow> ('r \<Rightarrow> bool) \<Rightarrow> 'r list \<Rightarrow> 'r list list" where
  "splitAtNonDigits U isDigit text =
     splitRuns (\<lambda>r. \<not> IsLetter U r \<and> \<not> isDigit r) (map (ToLower U) text)"

text \<open>
  A part of the Unicode tables on code points: the ASCII letters and digits, and \<open>U+00BD\<close>
  (the fraction one half, code point 189), which is a number of category \<open>No\<close>
  (\<open>unicode.IsNumber\<close> holds) but no decimal digit (\<open>unicode.IsDigit\<close> does not).
\<close>

definition codePoints :: "nat unicode" where
  "codePoints = \<lparr> ToLower = (\<lambda>r. if 65 \<le> r \<and> r \<le> 90 then r + 32 else r),
                  IsLetter = (\<lambda>r. (97 \<le> r \<and> r \<le> 122) \<or> (65 \<le> r \<and> r \<le> 90)),
                  IsNumber = (\<lambda>r. (48 \<le> r \<and> r \<le> 57) \<or> r = 189) \<rparr>"

definition codePointIsDigit :: "nat \<Rightarrow> bool" where
  "codePointIsDigit r = (48 \<le> r \<and> r \<le> 57)"


section \<open>Numbers\<close>

text \<open>
  Go's \<open>int\<close> has 64 bits on a 64-bit platform, the size that the model takes: its values
  are the integers from \<open>minInt\<close> to \<open>maxInt\<close>, and \<open>x++\<close> on the largest of them wraps
  around to the smallest. A counter of the classifier is an integer of this range (the empty
  classifier starts it at 0, a snapshot holds values of Go's \<open>int\<close>), and \<open>goInc\<close> is its
  increment.
\<close>

definition maxInt :: int where
  "maxInt = 9223372036854775807"

definition minInt :: int where
  "minInt = - 9223372036854775808"

definition goInc :: "int \<Rightarrow> int" where
  "goInc x = (if x = maxInt then minInt else x + 1)"

text \<open>
  A \<open>float64\<close> is \<open>NaN\<close>, an infinity or a finite number. The operations follow the
  IEEE 754 rules of Go for the special values; on finite numbers they are exact, so
  rounding, overflow and underflow of finite results are outside the model, and so is the
  sign of zero (no operation of the classifier tells the two zeros apart: a divisor that
  is zero is a converted count, a sum of converted counts or a sum of values of
  \<open>math.Exp\<close>, hence \<open>+0\<close>, and \<open>math.Log\<close> maps both zeros to \<open>-Inf\<close>).
\<close>

datatype float64 = NaN | NegInf | PosInf | Finite real

definition float64_of_int :: "int \<Rightarrow> float64" where
  "float64_of_int n = Finite (real_of_int n)"

fun fadd :: "float64 \<Rightarrow> float64 \<Rightarrow> float64" where
  "fadd NaN _ = NaN"
| "fadd _ NaN = NaN"
| "fadd PosInf NegInf = NaN"
| "fadd NegInf PosInf = NaN"
| "fadd PosInf _ = PosInf"
| "fadd _ PosInf = PosInf"
| "fadd NegInf _ = NegInf"
| "fadd _ NegInf = NegInf"
| "fadd (Finite x) (Finite y) = Finite (x + y)"

fun fsub :: "float64 \<Rightarrow> float64 \<Rightarrow> float64" where
  "fsub NaN _ = NaN"
| "fsub _ NaN = NaN"
| "fsub PosInf PosInf = NaN"
| "fsub NegInf NegInf = NaN"
| "fsub PosInf _ = PosInf"
| "fsub _ NegInf = PosInf"
| "fsub NegInf _ = NegInf"
| "fsub _ PosInf = NegInf"
| "fsub (Finite x) (Finite y) = Finite (x - y)"

fun fdiv :: "float64 \<Rightarrow> float64 \<Rightarrow> float64" where
  "fdiv NaN _ = NaN"
| "fdiv _ NaN = NaN"
| "fdiv PosInf PosInf = NaN"
| "fdiv PosInf NegInf = NaN"
| "fdiv NegInf PosInf = NaN"
| "fdiv NegInf NegInf = NaN"
| "fdiv PosInf (Finite y) = (if y < 0 then NegInf else PosInf)"
| "fdiv NegInf (Finite y) = (if y < 0 then PosInf else NegInf)"
| "fdiv (Finite x) PosInf = Finite 0"
| "fdiv (Finite x) NegInf = Finite 0"
| "fdiv (Finite x) (Finite y) =
     (if y = 0 then (if x = 0 then NaN else if 0 < x then PosInf else NegInf)
      else Finite (x / y))"

text \<open>\<open>math.Log\<close>: \<open>Log(+Inf) = +Inf\<close>, \<open>Log(0) = -Inf\<close>, \<open>Log(x < 0) = NaN\<close>, \<open>Log(NaN) = NaN\<close>.\<close>

fun math_Log :: "float64 \<Rightarrow> float64" where
  "math_Log NaN = NaN"
| "math_Log NegInf = NaN"
| "math_Log PosInf = PosInf"
| "math_Log (Finite x) = (if x < 0 then NaN else if x = 0 then NegInf else Finite (ln x))"

text \<open>\<open>math.Exp\<close>: \<open>Exp(+Inf) = +Inf\<close>, \<open>Exp(-Inf) = 0\<close>, \<open>Exp(NaN) = NaN\<close>.\<close>

fun math_Exp :: "float64 \<Rightarrow> float64" where
  "math_Exp NaN = NaN"
| "math_Exp NegInf = Finite 0"
| "math_Exp PosInf = PosInf"
| "math_Exp (Finite x) = Finite (exp x)"

text \<open>Go's \<open>a > b\<close> on \<open>float64\<close>: false as soon as one side is \<open>NaN\<close>.\<close>

fun fgt :: "float64 \<Rightarrow> float64 \<Rightarrow> bool" where
  "fgt NaN _ = False"
| "fgt _ NaN = False"
| "fgt NegInf _ = False"
| "fgt _ PosInf = False"
| "fgt PosInf _ = True"
| "fgt _ NegInf = True"
| "fgt (Finite x) (Finite y) = (y < x)"

section \<open>The classifier\<close>

text \<open>
  A Go map is \<open>nil\<close> (\<open>None\<close>) or a finite table (\<open>Some f\<close>). Reading a key from a
  \<open>nil\<close> map, or a key that is absent, gives the zero value; writing to a \<open>nil\<close> map
  panics.
\<close>

datatype error = NilMapWrite

type_synonym 'k intMap = "('k \<rightharpoonup> int) option"
type_synonym 'k nestedMap = "('k \<rightharpoonup> 'k intMap) option"

definition intAt :: "'k intMap \<Rightarrow> 'k \<Rightarrow> int" where
  "intAt m k = (case m of None \<Rightarrow> 0 | Some f \<Rightarrow> (case f k of None \<Rightarrow> 0 | Some v \<Rightarrow> v))"

definition mapAt :: "'k nestedMap \<Rightarrow> 'k \<Rightarrow> 'k intMap" where
  "mapAt m k = (case m of None \<Rightarrow> None | Some f \<Rightarrow> (case f k of None \<Rightarrow> None | Some inner \<Rightarrow> inner))"

text \<open>\<open>m[k]++\<close>: the entry is read (0 when absent), incremented as an \<open>int\<close> and written back.\<close>

definition incrAt :: "'k intMap \<Rightarrow> 'k \<Rightarrow> error + 'k intMap" where
  "incrAt m k = (case m of None \<Rightarrow> Inl NilMapWrite | Some f \<Rightarrow> Inr (Some (f(k \<mapsto> goInc (intAt m k)))))"

text \<open>The keys a \<open>range\<close> loop over a map visits, and an order in which it may visit them.\<close>

definition keys :: "('k \<rightharpoonup> 'v) option \<Rightarrow> 'k set" where
  "keys m = (case m of None \<Rightarrow> {} | Some f \<Rightarrow> dom f)"

definition rangeOrder :: "('k \<rightharpoonup> 'v) option \<Rightarrow> 'k list \<Rightarrow> bool" where
  "rangeOrder m ks = (distinct ks \<and> set ks = keys m)"

record 'r Document =
  Text :: "'r list"
  Label :: "'r list"

text \<open>
  The vocabulary is a set of tokens. It is never \<open>nil\<close>: \<open>NewNaiveBayesClassifier\<close>,
  \<open>Reset\<close> and \<open>LoadSnapshot\<close> all allocate it.
\<close>

record 'r NaiveBayesClassifier =
  classDocCounts :: "'r list intMap"
  classWordCounts :: "'r list nestedMap"
  classTotalWords :: "'r list intMap"
  vocabulary :: "'r list fset"
  totalDocs :: int

definition NewNaiveBayesClassifier :: "'r NaiveBayesClassifier" where
  "NewNaiveBayesClassifier =
     \<lparr> classDocCounts = Some Map.empty, classWordCounts = Some Map.empty,
       classTotalWords = Some Map.empty, vocabulary = {||}, totalDocs = 0 \<rparr>"

definition Reset :: "'r NaiveBayesClassifier \<Rightarrow> 'r NaiveBayesClassifier" where
  "Reset nb =
     nb\<lparr> classDocCounts := Some Map.empty, classWordCounts := Some Map.empty,
         classTotalWords := Some Map.empty, vocabulary := {||}, totalDocs := 0 \<rparr>"

text \<open>
  The body of the token loop of \<open>Train\<close>. \<open>nb.classWordCounts[label][token]++\<close> reads the
  inner map of \<open>label\<close> (\<open>nil\<close> when the outer map is \<open>nil\<close> or has no such key) and
  writes to it.
\<close>

fun trainTokens :: "'r NaiveBayesClassifier \<Rightarrow> 'r list \<Rightarrow> 'r list list \<Rightarrow> error + 'r NaiveBayesClassifier" where
  "trainTokens nb label [] = Inr nb"
| "trainTokens nb label (token # rest) =
     (if token = [] then trainTokens nb label rest
      else
        let nb1 = nb\<lparr>vocabulary := finsert token (vocabulary nb)\<rparr> in
        (case incrAt (mapAt (classWordCounts nb1) label) token of
           Inl e \<Rightarrow> Inl e
         | Inr inner \<Rightarrow>
            (case classWordCounts nb1 of
               None \<Rightarrow> Inl NilMapWrite
             | Some outer \<Rightarrow>
                let nb2 = nb1\<lparr>classWordCounts := Some (outer(label \<mapsto> inner))\<rparr> in
                (case incrAt (classTotalWords nb2) label of
                   Inl e \<Rightarrow> Inl e
                 | Inr totals \<Rightarrow> trainTokens (nb2\<lparr>classTotalWords := totals\<rparr>) label rest))))"

definition Train :: "'r unicode \<Rightarrow> 'r NaiveBayesClassifier \<Rightarrow> 'r list \<Rightarrow> 'r list \<Rightarrow> error + 'r NaiveBayesClassifier" where
  "Train U nb text label =
     (let nb1 = nb\<lparr>totalDocs := goInc (totalDocs nb)\<rparr> in
      case incrAt (classDocCounts nb1) label of
        Inl e \<Rightarrow> Inl e
      | Inr counts \<Rightarrow>
         let nb2 = nb1\<lparr>classDocCounts := counts\<rparr> in
         (case classWordCounts nb2 of
            None \<Rightarrow> Inl NilMapWrite
          | Some outer \<Rightarrow>
             let nb3 = (case outer label of
                          None \<Rightarrow> nb2\<lparr>classWordCounts := Some (outer(label \<mapsto> Some Map.empty))\<rparr>
                        | Some _ \<Rightarrow> nb2)
             in trainTokens nb3 label (tokenize U text)))"

fun TrainBatch :: "'r unicode \<Rightarrow> 'r NaiveBayesClassifier \<Rightarrow> 'r Document list \<Rightarrow> error + 'r NaiveBayesClassifier" where
  "TrainBatch U nb [] = Inr nb"
| "TrainBatch U nb (doc # docs) =
     (case Train U nb (Text doc) (Label doc) of
        Inl e \<Rightarrow> Inl e
      | Inr nb' \<Rightarrow> TrainBatch U nb' docs)"

section \<open>Prediction\<close>

text \<open>The inner loop of \<open>Predict\<close>: the smoothed log-likelihood terms of the tokens.\<close>

fun scoreTokens :: "'r NaiveBayesClassifier \<Rightarrow> 'r list \<Rightarrow> float64 \<Rightarrow> float64 \<Rightarrow> 'r list list \<Rightarrow> float64 \<Rightarrow> float64" where
  "scoreTokens nb class totalWords vocabSize [] logProb = logProb"
| "scoreTokens nb class totalWords vocabSize (token # rest) logProb =
     (if token = [] then scoreTokens nb class totalWords vocabSize rest logProb
      else
        let wordCount = float64_of_int (intAt (mapAt (classWordCounts nb) class) token) in
        scoreTokens nb class totalWords vocabSize rest
          (fadd logProb (math_Log (fdiv (fadd wordCount (Finite 1)) (fadd totalWords vocabSize)))))"

text \<open>
  The loop of \<open>Predict\<close> over \<open>nb.classDocCounts\<close>. Go visits the keys of a map in an
  order that it chooses anew for every loop, so the order is an argument. The state of
  the loop is \<open>(scores, bestLabel, bestScore)\<close>.
\<close>

fun scoreClasses ::
  "'r NaiveBayesClassifier \<Rightarrow> 'r list list \<Rightarrow> float64 \<Rightarrow> 'r list list \<Rightarrow>
   ('r list \<rightharpoonup> float64) \<times> 'r list \<times> float64 \<Rightarrow> ('r list \<rightharpoonup> float64) \<times> 'r list \<times> float64" where
  "scoreClasses nb tokens vocabSize [] st = st"
| "scoreClasses nb tokens vocabSize (class # rest) (scores, bestLabel, bestScore) =
     (let docCount = intAt (classDocCounts nb) class in
      if docCount = 0 then scoreClasses nb tokens vocabSize rest (scores, bestLabel, bestScore)
      else
        let logProb0 = math_Log (fdiv (float64_of_int docCount) (float64_of_int (totalDocs nb)));
            totalWords = float64_of_int (intAt (classTotalWords nb) class);
            logProb = scoreTokens nb class totalWords vocabSize tokens logProb0;
            scores' = scores(class \<mapsto> logProb)
        in if fgt logProb bestScore
           then scoreClasses nb tokens vocabSize rest (scores', class, logProb)
           else scoreClasses nb tokens vocabSize rest (scores', bestLabel, bestScore))"

text \<open>The first loop of \<open>normalizeScores\<close>, over \<open>scores\<close> in the order Go chooses.\<close>

fun expLoop ::
  "('k \<rightharpoonup> float64) \<Rightarrow> float64 \<Rightarrow> 'k list \<Rightarrow> ('k \<rightharpoonup> float64) \<times> float64 \<Rightarrow> ('k \<rightharpoonup> float64) \<times> float64" where
  "expLoop scores bestScore [] st = st"
| "expLoop scores bestScore (class # rest) (normalized, acc) =
     (case scores class of
        None \<Rightarrow> expLoop scores bestScore rest (normalized, acc)
      | Some logProb \<Rightarrow>
         let value = math_Exp (fsub logProb bestScore) in
         expLoop scores bestScore rest (normalized(class \<mapsto> value), fadd acc value))"

text \<open>
  The second loop of \<open>normalizeScores\<close> divides every entry by \<open>sum\<close> (here \<open>acc\<close>); each key is
  visited once and the entries do not depend on each other, so its order plays no role.
\<close>

definition normalizeScores :: "'k list \<Rightarrow> ('k \<rightharpoonup> float64) \<Rightarrow> float64 \<Rightarrow> ('k \<rightharpoonup> float64)" where
  "normalizeScores order scores bestScore =
     (if dom scores = {} then Map.empty
      else
        case expLoop scores bestScore order (Map.empty, Finite 0) of
          (normalized, acc) \<Rightarrow>
            if acc = Finite 0 then normalized
            else (\<lambda>class. map_option (\<lambda>v. fdiv v acc) (normalized class)))"

definition Predict ::
  "'r unicode \<Rightarrow> 'r NaiveBayesClassifier \<Rightarrow> 'r list list \<Rightarrow> 'r list list \<Rightarrow> 'r list \<Rightarrow>
   'r list \<times> ('r list \<rightharpoonup> float64)" where
  "Predict U nb classOrder scoreOrder text =
     (let tokens = tokenize U text;
          vocabSize = float64_of_int (int (fcard (vocabulary nb)))
      in case scoreClasses nb tokens vocabSize classOrder (Map.empty, [], NegInf) of
           (scores, bestLabel, bestScore) \<Rightarrow> (bestLabel, normalizeScores scoreOrder scores bestScore))"

section \<open>Evaluation\<close>

record 'r Metrics =
  Total :: int
  Correct :: int
  Confusion :: "'r list \<rightharpoonup> ('r list \<rightharpoonup> int)"

definition Accuracy :: "'r Metrics \<Rightarrow> float64" where
  "Accuracy m =
     (if Total m = 0 then Finite 0
      else fdiv (float64_of_int (Correct m)) (float64_of_int (Total m)))"

text \<open>
  The loop of \<open>Evaluate\<close>. \<open>orders i\<close> gives the two iteration orders of the \<open>i\<close>-th
  call of \<open>Predict\<close>. The state of the loop is \<open>(confusion, correct)\<close>. Each counter of
  the loop grows by at most one per document and a slice has at most \<open>maxInt\<close> elements,
  so none of its increments wraps and \<open>++\<close> is \<open>+ 1\<close> here.
\<close>

fun evaluateLoop ::
  "'r unicode \<Rightarrow> 'r NaiveBayesClassifier \<Rightarrow> (nat \<Rightarrow> 'r list list \<times> 'r list list) \<Rightarrow> nat \<Rightarrow>
   'r Document list \<Rightarrow> ('r list \<rightharpoonup> ('r list \<rightharpoonup> int)) \<times> int \<Rightarrow> ('r list \<rightharpoonup> ('r list \<rightharpoonup> int)) \<times> int" where
  "evaluateLoop U nb orders i [] st = st"
| "evaluateLoop U nb orders i (doc # docs) (confusion, correct) =
     (let predicted = fst (Predict U nb (fst (orders i)) (snd (orders i)) (Text doc));
          correct' = (if predicted = Label doc then correct + 1 else correct);
          row = (case confusion (Label doc) of None \<Rightarrow> Map.empty | Some r \<Rightarrow> r);
          row' = row(predicted \<mapsto> (case row predicted of None \<Rightarrow> 0 | Some v \<Rightarrow> v) + 1)
      in evaluateLoop U nb orders (Suc i) docs (confusion(Label doc \<mapsto> row'), correct'))"

definition Evaluate ::
  "'r unicode \<Rightarrow> 'r NaiveBayesClassifier \<Rightarrow> (nat \<Rightarrow> 'r list list \<times> 'r list list) \<Rightarrow> 'r Document list \<Rightarrow> 'r Metrics" where
  "Evaluate U nb orders docs =
     (case evaluateLoop U nb orders 0 docs (Map.empty, 0) of
        (confusion, correct) \<Rightarrow>
          \<lparr> Total = int (length docs), Correct = correct, Confusion = confusion \<rparr>)"

section \<open>Snapshots\<close>

record 'r Snapshot =
  ClassDocCounts :: "'r list intMap"
  ClassWordCounts :: "'r list nestedMap"
  ClassTotalWords :: "'r list intMap"
  Vocabulary :: "'r list list"
  TotalDocs :: int

text \<open>
  The copy helpers return \<open>nil\<close> for \<open>nil\<close> and otherwise a fresh map that gets the
  entry of every key of \<open>src\<close> (for the nested map: a copy of the inner map).
\<close>

definition copyIntMap :: "'k intMap \<Rightarrow> 'k intMap" where
  "copyIntMap src = (case src of None \<Rightarrow> None | Some f \<Rightarrow> Some (f |` dom f))"

definition copyNestedMap :: "'k nestedMap \<Rightarrow> 'k nestedMap" where
  "copyNestedMap src =
     (case src of None \<Rightarrow> None | Some f \<Rightarrow> Some (\<lambda>k. map_option copyIntMap (f k)))"

text \<open>
  \<open>Snapshot\<close> collects the vocabulary and sorts it with \<open>sort.Strings\<close>, which gives
  the tokens in ascending lexicographic order whatever the order they were collected in.
\<close>

definition Snapshot :: "('r::linorder) NaiveBayesClassifier \<Rightarrow> 'r Snapshot" where
  "Snapshot nb =
     \<lparr> ClassDocCounts = copyIntMap (classDocCounts nb),
       ClassWordCounts = copyNestedMap (classWordCounts nb),
       ClassTotalWords = copyIntMap (classTotalWords nb),
       Vocabulary = sorted_list_of_fset (vocabulary nb),
       TotalDocs = totalDocs nb \<rparr>"

definition LoadSnapshot :: "'r NaiveBayesClassifier \<Rightarrow> 'r Snapshot \<Rightarrow> 'r NaiveBayesClassifier" where
  "LoadSnapshot nb snapshot =
     nb\<lparr> classDocCounts := copyIntMap (ClassDocCounts snapshot),
         classWordCounts := copyNestedMap (ClassWordCounts snapshot),
         classTotalWords := copyIntMap (ClassTotalWords snapshot),
         vocabulary := fold finsert (Vocabulary snapshot) {||},
         totalDocs := TotalDocs snapshot \<rparr>"

section \<open>The map writes of the other operations\<close>

text \<open>
  \<open>Predict\<close>, \<open>Evaluate\<close>, \<open>Snapshot\<close> and \<open>LoadSnapshot\<close> write to maps as well, and a
  write to a \<open>nil\<close> map would panic. The definitions of this section follow the same
  functions statement by statement with every map they write to a Go map that may be
  \<open>nil\<close>: \<open>make\<close> gives \<open>Some Map.empty\<close>, \<open>m[k] = v\<close> is \<open>storeAt\<close>, \<open>m[k]++\<close> is \<open>incrAt\<close>,
  and \<open>x++\<close> is \<open>goInc\<close>. Every \<open>range\<close> loop over a map has its order as an argument.
\<close>

type_synonym 'k floatMap = "('k \<rightharpoonup> float64) option"

text \<open>\<open>m[k] = v\<close>\<close>

definition storeAt :: "('k \<rightharpoonup> 'v) option \<Rightarrow> 'k \<Rightarrow> 'v \<Rightarrow> error + ('k \<rightharpoonup> 'v) option" where
  "storeAt m k v = (case m of None \<Rightarrow> Inl NilMapWrite | Some f \<Rightarrow> Inr (Some (f(k \<mapsto> v))))"

text \<open>\<open>v, ok := m[k]\<close>: the entry of \<open>k\<close>, if the map has one.\<close>

definition entryAt :: "('k \<rightharpoonup> 'v) option \<Rightarrow> 'k \<Rightarrow> 'v option" where
  "entryAt m k = (case m of None \<Rightarrow> None | Some f \<Rightarrow> f k)"

fun scoreClassesChecked ::
  "'r NaiveBayesClassifier \<Rightarrow> 'r list list \<Rightarrow> float64 \<Rightarrow> 'r list list \<Rightarrow>
   'r list floatMap \<times> 'r list \<times> float64 \<Rightarrow> error + ('r list floatMap \<times> 'r list \<times> float64)" where
  "scoreClassesChecked nb tokens vocabSize [] st = Inr st"
| "scoreClassesChecked nb tokens vocabSize (class # rest) (scores, bestLabel, bestScore) =
     (let docCount = intAt (classDocCounts nb) class in
      if docCount = 0 then scoreClassesChecked nb tokens vocabSize rest (scores, bestLabel, bestScore)
      else
        let logProb0 = math_Log (fdiv (float64_of_int docCount) (float64_of_int (totalDocs nb)));
            totalWords = float64_of_int (intAt (classTotalWords nb) class);
            logProb = scoreTokens nb class totalWords vocabSize tokens logProb0
        in (case storeAt scores class logProb of
              Inl e \<Rightarrow> Inl e
            | Inr scores' \<Rightarrow>
               if fgt logProb bestScore
               then scoreClassesChecked nb tokens vocabSize rest (scores', class, logProb)
               else scoreClassesChecked nb tokens vocabSize rest (scores', bestLabel, bestScore)))"

fun expLoopChecked ::
  "'k floatMap \<Rightarrow> float64 \<Rightarrow> 'k list \<Rightarrow> 'k floatMap \<times> float64 \<Rightarrow> error + ('k floatMap \<times> float64)" where
  "expLoopChecked scores bestScore [] st = Inr st"
| "expLoopChecked scores bestScore (class # rest) (normalized, acc) =
     (case entryAt scores class of
        None \<Rightarrow> expLoopChecked scores bestScore rest (normalized, acc)
      | Some logProb \<Rightarrow>
         let value = math_Exp (fsub logProb bestScore) in
         (case storeAt normalized class value of
            Inl e \<Rightarrow> Inl e
          | Inr normalized' \<Rightarrow> expLoopChecked scores bestScore rest (normalized', fadd acc value)))"

text \<open>The second loop of \<open>normalizeScores\<close>: \<open>normalized[class] /= sum\<close> for every key.\<close>

fun divideLoop :: "float64 \<Rightarrow> 'k list \<Rightarrow> 'k floatMap \<Rightarrow> error + 'k floatMap" where
  "divideLoop acc [] normalized = Inr normalized"
| "divideLoop acc (class # rest) normalized =
     (case entryAt normalized class of
        None \<Rightarrow> divideLoop acc rest normalized
      | Some v \<Rightarrow>
         (case storeAt normalized class (fdiv v acc) of
            Inl e \<Rightarrow> Inl e
          | Inr normalized' \<Rightarrow> divideLoop acc rest normalized'))"

definition normalizeScoresChecked ::
  "'k list \<Rightarrow> 'k list \<Rightarrow> 'k floatMap \<Rightarrow> float64 \<Rightarrow> error + 'k floatMap" where
  "normalizeScoresChecked scoreOrder divideOrder scores bestScore =
     (if keys scores = {} then Inr (Some Map.empty)
      else
        case expLoopChecked scores bestScore scoreOrder (Some Map.empty, Finite 0) of
          Inl e \<Rightarrow> Inl e
        | Inr (normalized, acc) \<Rightarrow>
            if acc = Finite 0 then Inr normalized
            else divideLoop acc divideOrder normalized)"

definition PredictChecked ::
  "'r unicode \<Rightarrow> 'r NaiveBayesClassifier \<Rightarrow> 'r list list \<Rightarrow> 'r list list \<Rightarrow> 'r list list \<Rightarrow> 'r list \<Rightarrow>
   error + ('r list \<times> 'r list floatMap)" where
  "PredictChecked U nb classOrder scoreOrder divideOrder text =
     (let tokens = tokenize U text;
          vocabSize = float64_of_int (int (fcard (vocabulary nb)))
      in case scoreClassesChecked nb tokens vocabSize classOrder (Some Map.empty, [], NegInf) of
           Inl e \<Rightarrow> Inl e
         | Inr (scores, bestLabel, bestScore) \<Rightarrow>
            (case normalizeScoresChecked scoreOrder divideOrder scores bestScore of
               Inl e \<Rightarrow> Inl e
             | Inr probs \<Rightarrow> Inr (bestLabel, probs)))"

text \<open>
  The loop of \<open>Evaluate\<close>; \<open>orders i\<close> gives the three iteration orders of the \<open>i\<close>-th call
  of \<open>Predict\<close>. \<open>confusion[doc.Label][predicted]++\<close> reads the row of the label and
  writes to it, as the token loop of \<open>Train\<close> does with the inner map of its label.
\<close>

fun evaluateLoopChecked ::
  "'r unicode \<Rightarrow> 'r NaiveBayesClassifier \<Rightarrow> (nat \<Rightarrow> 'r list list \<times> 'r list list \<times> 'r list list) \<Rightarrow> nat \<Rightarrow>
   'r Document list \<Rightarrow> 'r list nestedMap \<times> int \<Rightarrow> error + ('r list nestedMap \<times> int)" where
  "evaluateLoopChecked U nb orders i [] st = Inr st"
| "evaluateLoopChecked U nb orders i (doc # docs) (confusion, correct) =
     (case PredictChecked U nb (fst (orders i)) (fst (snd (orders i))) (snd (snd (orders i))) (Text doc) of
        Inl e \<Rightarrow> Inl e
      | Inr (predicted, probs) \<Rightarrow>
         let correct' = (if predicted = Label doc then goInc correct else correct) in
         (case (if entryAt confusion (Label doc) = None
                then storeAt confusion (Label doc) (Some Map.empty)
                else Inr confusion) of
            Inl e \<Rightarrow> Inl e
          | Inr confusion1 \<Rightarrow>
             (case incrAt (mapAt confusion1 (Label doc)) predicted of
                Inl e \<Rightarrow> Inl e
              | Inr row \<Rightarrow>
                 (case storeAt confusion1 (Label doc) row of
                    Inl e \<Rightarrow> Inl e
                  | Inr confusion2 \<Rightarrow>
                     evaluateLoopChecked U nb orders (Suc i) docs (confusion2, correct')))))"

text \<open>The result is \<open>(Total, Correct, Confusion)\<close>.\<close>

definition EvaluateChecked ::
  "'r unicode \<Rightarrow> 'r NaiveBayesClassifier \<Rightarrow> (nat \<Rightarrow> 'r list list \<times> 'r list list \<times> 'r list list) \<Rightarrow>
   'r Document list \<Rightarrow> error + (int \<times> int \<times> 'r list nestedMap)" where
  "EvaluateChecked U nb orders docs =
     (case evaluateLoopChecked U nb orders 0 docs (Some Map.empty, 0) of
        Inl e \<Rightarrow> Inl e
      | Inr (confusion, correct) \<Rightarrow> Inr (int (length docs), correct, confusion))"

text \<open>The loop of each copy helper, over \<open>src\<close> in the order \<open>ks\<close>.\<close>

fun copyLoop :: "('k \<rightharpoonup> int) \<Rightarrow> 'k list \<Rightarrow> 'k intMap \<Rightarrow> error + 'k intMap" where
  "copyLoop src [] dst = Inr dst"
| "copyLoop src (k # ks) dst =
     (case src k of
        None \<Rightarrow> copyLoop src ks dst
      | Some v \<Rightarrow> (case storeAt dst k v of Inl e \<Rightarrow> Inl e | Inr dst' \<Rightarrow> copyLoop src ks dst'))"

definition copyIntMapChecked :: "'k list \<Rightarrow> 'k intMap \<Rightarrow> error + 'k intMap" where
  "copyIntMapChecked ks src =
     (case src of None \<Rightarrow> Inr None | Some f \<Rightarrow> copyLoop f ks (Some Map.empty))"

fun copyNestedLoop ::
  "('k \<rightharpoonup> 'k intMap) \<Rightarrow> ('k \<Rightarrow> 'k list) \<Rightarrow> 'k list \<Rightarrow> 'k nestedMap \<Rightarrow> error + 'k nestedMap" where
  "copyNestedLoop src innerKeys [] dst = Inr dst"
| "copyNestedLoop src innerKeys (k # ks) dst =
     (case src k of
        None \<Rightarrow> copyNestedLoop src innerKeys ks dst
      | Some inner \<Rightarrow>
         (case copyIntMapChecked (innerKeys k) inner of
            Inl e \<Rightarrow> Inl e
          | Inr copied \<Rightarrow>
             (case storeAt dst k copied of
                Inl e \<Rightarrow> Inl e
              | Inr dst' \<Rightarrow> copyNestedLoop src innerKeys ks dst')))"

definition copyNestedMapChecked :: "'k list \<Rightarrow> ('k \<Rightarrow> 'k list) \<Rightarrow> 'k nestedMap \<Rightarrow> error + 'k nestedMap" where
  "copyNestedMapChecked ks innerKeys src =
     (case src of None \<Rightarrow> Inr None | Some f \<Rightarrow> copyNestedLoop f innerKeys ks (Some Map.empty))"

text \<open>
  The iteration orders of the copies of one snapshot: of \<open>classDocCounts\<close>,
  of \<open>classWordCounts\<close>, of each of its inner maps, and of \<open>classTotalWords\<close>.
\<close>

record 'k copyOrders =
  docKeys :: "'k list"
  classKeys :: "'k list"
  wordKeys :: "'k \<Rightarrow> 'k list"
  totalKeys :: "'k list"

text \<open>
  The vocabulary of the classifier is a set that is never \<open>nil\<close>: \<open>Snapshot\<close> only reads
  it, and \<open>LoadSnapshot\<close> writes the tokens to the map it has just made.
\<close>

definition SnapshotChecked ::
  "'r list copyOrders \<Rightarrow> ('r::linorder) NaiveBayesClassifier \<Rightarrow> error + 'r Snapshot" where
  "SnapshotChecked order nb =
     (case copyIntMapChecked (docKeys order) (classDocCounts nb) of
        Inl e \<Rightarrow> Inl e
      | Inr docCounts \<Rightarrow>
         (case copyNestedMapChecked (classKeys order) (wordKeys order) (classWordCounts nb) of
            Inl e \<Rightarrow> Inl e
          | Inr wordCounts \<Rightarrow>
             (case copyIntMapChecked (totalKeys order) (classTotalWords nb) of
                Inl e \<Rightarrow> Inl e
              | Inr totalWords \<Rightarrow>
                 Inr \<lparr> ClassDocCounts = docCounts, ClassWordCounts = wordCounts,
                       ClassTotalWords = totalWords,
                       Vocabulary = sorted_list_of_fset (vocabulary nb),
                       TotalDocs = totalDocs nb \<rparr>)))"

definition LoadSnapshotChecked ::
  "'r list copyOrders \<Rightarrow> 'r NaiveBayesClassifier \<Rightarrow> 'r Snapshot \<Rightarrow> error + 'r NaiveBayesClassifier" where
  "LoadSnapshotChecked order nb snapshot =
     (case copyIntMapChecked (docKeys order) (ClassDocCounts snapshot) of
        Inl e \<Rightarrow> Inl e
      | Inr docCounts \<Rightarrow>
         (case copyNestedMapChecked (classKeys order) (wordKeys order) (ClassWordCounts snapshot) of
            Inl e \<Rightarrow> Inl e
          | Inr wordCounts \<Rightarrow>
             (case copyIntMapChecked (totalKeys order) (ClassTotalWords snapshot) of
                Inl e \<Rightarrow> Inl e
              | Inr totalWords \<Rightarrow>
                 Inr (nb\<lparr> classDocCounts := docCounts, classWordCounts := wordCounts,
                          classTotalWords := totalWords,
                          vocabulary := fold finsert (Vocabulary snapshot) {||},
                          totalDocs := TotalDocs snapshot \<rparr>))))"


section \<open>Calls of the core operations\<close>

text \<open>
  One call of a core operation with its arguments (for an operation that ranges over
  maps also the iteration orders Go picks), and what it returns: \<open>Predict\<close> a label and
  a distribution, \<open>Evaluate\<close> the fields \<open>Total\<close>, \<open>Correct\<close> and \<open>Confusion\<close> of its
  metrics, \<open>Snapshot\<close> a snapshot. A call that panics returns the error. \<open>Reset\<close> only
  assigns five fresh values to the fields: it has no statement that can panic.
\<close>

datatype 'r call =
    CallTrain "'r list" "'r list"
  | CallTrainBatch "'r Document list"
  | CallReset
  | CallPredict "'r list" "'r list list" "'r list list" "'r list list"
  | CallEvaluate "'r Document list" "nat \<Rightarrow> 'r list list \<times> 'r list list \<times> 'r list list"
  | CallSnapshot "'r list copyOrders"
  | CallLoadSnapshot "'r Snapshot" "'r list copyOrders"

datatype 'r result =
    Done
  | Predicted "'r list" "'r list floatMap"
  | Evaluated int int "'r list nestedMap"
  | Snapshotted "'r Snapshot"

fun exec :: "('r::linorder) unicode \<Rightarrow> 'r NaiveBayesClassifier \<Rightarrow> 'r call \<Rightarrow> error + ('r NaiveBayesClassifier \<times> 'r result)" where
  "exec U nb (CallTrain text label) =
     (case Train U nb text label of Inl e \<Rightarrow> Inl e | Inr nb' \<Rightarrow> Inr (nb', Done))"
| "exec U nb (CallTrainBatch docs) =
     (case TrainBatch U nb docs of Inl e \<Rightarrow> Inl e | Inr nb' \<Rightarrow> Inr (nb', Done))"
| "exec U nb CallReset = Inr (Reset nb, Done)"
| "exec U nb (CallPredict text classOrder scoreOrder divideOrder) =
     (case PredictChecked U nb classOrder scoreOrder divideOrder text of
        Inl e \<Rightarrow> Inl e
      | Inr (label, probs) \<Rightarrow> Inr (nb, Predicted label probs))"
| "exec U nb (CallEvaluate docs orders) =
     (case EvaluateChecked U nb orders docs of
        Inl e \<Rightarrow> Inl e
      | Inr (n, correct, confusion) \<Rightarrow> Inr (nb, Evaluated n correct confusion))"
| "exec U nb (CallSnapshot order) =
     (case SnapshotChecked order nb of Inl e \<Rightarrow> Inl e | Inr snapshot \<Rightarrow> Inr (nb, Snapshotted snapshot))"
| "exec U nb (CallLoadSnapshot snapshot order) =
     (case LoadSnapshotChecked order nb snapshot of Inl e \<Rightarrow> Inl e | Inr nb' \<Rightarrow> Inr (nb', Done))"

text \<open>A sequence of calls stops at the first panic.\<close>

fun run :: "('r::linorder) unicode \<Rightarrow> 'r NaiveBayesClassifier \<Rightarrow> 'r call list \<Rightarrow> error + ('r NaiveBayesClassifier \<times> 'r result list)" where
  "run U nb [] = Inr (nb, [])"
| "run U nb (c # cs) =
     (case exec U nb c of
        Inl e \<Rightarrow> Inl e
      | Inr (nb', r) \<Rightarrow>
         (case run U nb' cs of Inl e \<Rightarrow> Inl e | Inr (nb'', rs) \<Rightarrow> Inr (nb'', r # rs)))"

fun isTraining :: "'r call \<Rightarrow> bool" where
  "isTraining (CallTrain _ _) = True"
| "isTraining (CallTrainBatch _) = True"
| "isTraining _ = False"

text \<open>A classifier, and a snapshot, none of whose maps is \<open>nil\<close>.\<close>

definition innerMapsPresent :: "'k nestedMap \<Rightarrow> bool" where
  "innerMapsPresent m = (case m of None \<Rightarrow> False | Some f \<Rightarrow> (\<forall>k. f k \<noteq> Some None))"

definition noNilMaps :: "'r NaiveBayesClassifier \<Rightarrow> bool" where
  "noNilMaps nb =
     (classDocCounts nb \<noteq> None \<and> innerMapsPresent (classWordCounts nb) \<and> classTotalWords nb \<noteq> None)"

definition snapshotNoNilMaps :: "'r Snapshot \<Rightarrow> bool" where
  "snapshotNoNilMaps s =
     (ClassDocCounts s \<noteq> None \<and> innerMapsPresent (ClassWordCounts s) \<and> ClassTotalWords s \<noteq> None)"

fun loadsNoNilMaps :: "'r call \<Rightarrow> bool" where
  "loadsNoNilMaps (CallLoadSnapshot s order) = snapshotNoNilMaps s"
| "loadsNoNilMaps _ = True"

text \<open>The snapshot that decoding the JSON document \<open>{}\<close> gives: every field is absent.\<close>

definition emptySnapshot :: "'r Snapshot" where
  "emptySnapshot =
     \<lparr> ClassDocCounts = None, ClassWordCounts = None, ClassTotalWords = None,
       Vocabulary = [], TotalDocs = 0 \<rparr>"

text \<open>Iteration orders for a snapshot whose maps are \<open>nil\<close> or empty.\<close>

definition noKeys :: "'k copyOrders" where
  "noKeys = \<lparr> docKeys = [], classKeys = [], wordKeys = (\<lambda>k. []), totalKeys = [] \<rparr>"

text \<open>
  When \<open>Train(text, label)\<close> writes to a \<open>nil\<close> map: \<open>classDocCounts\<close> or
  \<open>classWordCounts\<close> is \<open>nil\<close>, or the text has a token and \<open>classTotalWords\<close> or the
  inner map \<open>classWordCounts[label]\<close> is \<open>nil\<close> (an inner map that is absent is made by
  \<open>Train\<close>). \<open>TrainBatch\<close> does so at the first of its documents at which \<open>Train\<close> does.
\<close>

definition nilInnerMap :: "'k nestedMap \<Rightarrow> 'k \<Rightarrow> bool" where
  "nilInnerMap m k = (case m of None \<Rightarrow> False | Some f \<Rightarrow> f k = Some None)"

definition trainPanics :: "'r unicode \<Rightarrow> 'r NaiveBayesClassifier \<Rightarrow> 'r list \<Rightarrow> 'r list \<Rightarrow> bool" where
  "trainPanics U nb text label =
     (classDocCounts nb = None \<or> classWordCounts nb = None
      \<or> (tokenize U text \<noteq> []
          \<and> (nilInnerMap (classWordCounts nb) label \<or> classTotalWords nb = None)))"

fun batchPanics :: "'r unicode \<Rightarrow> 'r NaiveBayesClassifier \<Rightarrow> 'r Document list \<Rightarrow> bool" where
  "batchPanics U nb [] = False"
| "batchPanics U nb (doc # docs) =
     (trainPanics U nb (Text doc) (Label doc)
      \<or> (case Train U nb (Text doc) (Label doc) of
            Inl e \<Rightarrow> False
          | Inr nb' \<Rightarrow> batchPanics U nb' docs))"

section \<open>States reached by training\<close>

text \<open>
  \<open>Train(text, label)\<close> increments \<open>totalDocs\<close> and \<open>classDocCounts[label]\<close> once and, for
  every token, \<open>classWordCounts[label][token]\<close> and \<open>classTotalWords[label]\<close>. In a state
  reached by training no document count exceeds \<open>totalDocs\<close> and no token count of
  \<open>label\<close> exceeds \<open>classTotalWords[label]\<close>, so a counter wraps in the call exactly when
  \<open>totalDocs\<close> has no room for one more document or \<open>classTotalWords[label]\<close> has no room
  for the tokens of the text. \<open>trainFits\<close> says that both have room, \<open>batchFits\<close> that they
  have it at every document of a batch.
\<close>

definition trainFits :: "'r unicode \<Rightarrow> 'r NaiveBayesClassifier \<Rightarrow> 'r list \<Rightarrow> 'r list \<Rightarrow> bool" where
  "trainFits U nb text label =
     (totalDocs nb < maxInt
      \<and> intAt (classTotalWords nb) label + int (length (tokenize U text)) \<le> maxInt)"

fun batchFits :: "'r unicode \<Rightarrow> 'r NaiveBayesClassifier \<Rightarrow> 'r Document list \<Rightarrow> bool" where
  "batchFits U nb [] = True"
| "batchFits U nb (doc # docs) =
     (trainFits U nb (Text doc) (Label doc)
      \<and> (case Train U nb (Text doc) (Label doc) of
            Inl e \<Rightarrow> True
          | Inr nb' \<Rightarrow> batchFits U nb' docs))"

text \<open>The number of tokens in the texts of a batch.\<close>

definition tokensIn :: "'r unicode \<Rightarrow> 'r Document list \<Rightarrow> int" where
  "tokensIn U docs = (\<Sum>doc \<leftarrow> docs. int (length (tokenize U (Text doc))))"

text \<open>
  The states reached from the empty classifier by \<open>Train\<close>, \<open>TrainBatch\<close> and \<open>Reset\<close>
  before any counter has wrapped around, which takes \<open>2^63\<close> documents or tokens.
\<close>

inductive reachable :: "'r unicode \<Rightarrow> 'r NaiveBayesClassifier \<Rightarrow> bool" for U :: "'r unicode" where
  reach_new: "reachable U NewNaiveBayesClassifier"
| reach_train: "reachable U nb \<Longrightarrow> trainFits U nb text label \<Longrightarrow> Train U nb text label = Inr nb' \<Longrightarrow> reachable U nb'"
| reach_batch: "reachable U nb \<Longrightarrow> batchFits U nb docs \<Longrightarrow> TrainBatch U nb docs = Inr nb' \<Longrightarrow> reachable U nb'"
| reach_reset: "reachable U nb \<Longrightarrow> reachable U (Reset nb)"

text \<open>The sum of all values of a map.\<close>

definition valuesSum :: "'k intMap \<Rightarrow> int" where
  "valuesSum m = (\<Sum>k \<in> keys m. intAt m k)"

definition modelInvariants :: "'r NaiveBayesClassifier \<Rightarrow> bool" where
  "modelInvariants nb =
     ((\<forall>L. 0 \<le> intAt (classDocCounts nb) L)
      \<and> finite (keys (classDocCounts nb))
      \<and> totalDocs nb = valuesSum (classDocCounts nb)
      \<and> (\<forall>L. finite (keys (mapAt (classWordCounts nb) L))
              \<and> intAt (classTotalWords nb) L = valuesSum (mapAt (classWordCounts nb) L))
      \<and> fset (vocabulary nb) = (\<Union>L \<in> keys (classWordCounts nb). keys (mapAt (classWordCounts nb) L)))"

text \<open>The two halves of the invariants, and the invariant that training maintains.\<close>

definition docInvariant :: "'r NaiveBayesClassifier \<Rightarrow> bool" where
  "docInvariant nb =
     ((\<forall>L. 0 \<le> intAt (classDocCounts nb) L) \<and> finite (keys (classDocCounts nb))
      \<and> totalDocs nb = valuesSum (classDocCounts nb))"

definition wordInvariant :: "'r NaiveBayesClassifier \<Rightarrow> bool" where
  "wordInvariant nb =
     ((\<forall>L. finite (keys (mapAt (classWordCounts nb) L))
            \<and> intAt (classTotalWords nb) L = valuesSum (mapAt (classWordCounts nb) L))
      \<and> fset (vocabulary nb) = (\<Union>L \<in> keys (classWordCounts nb). keys (mapAt (classWordCounts nb) L)))"

text \<open>No token count is negative.\<close>

definition countsNonneg :: "'r NaiveBayesClassifier \<Rightarrow> bool" where
  "countsNonneg nb = (\<forall>L t. 0 \<le> intAt (mapAt (classWordCounts nb) L) t)"

definition trained :: "'r NaiveBayesClassifier \<Rightarrow> bool" where
  "trained nb = (noNilMaps nb \<and> docInvariant nb \<and> wordInvariant nb \<and> countsNonneg nb)"

section \<open>Sums over the confusion table\<close>

text \<open>
  \<open>confusion[a]\<close> is a row of the table when \<open>a\<close> is a key and reads as the empty row
  otherwise; \<open>confusion[a][p]\<close> reads as 0 where there is no entry.
\<close>

definition confusionSum :: "('k \<rightharpoonup> ('k \<rightharpoonup> int)) \<Rightarrow> int" where
  "confusionSum confusion = (\<Sum>a \<in> dom confusion. valuesSum (confusion a))"

definition diagonalSum :: "('k \<rightharpoonup> ('k \<rightharpoonup> int)) \<Rightarrow> int" where
  "diagonalSum confusion = (\<Sum>L \<in> dom confusion. intAt (confusion L) L)"

definition tableFinite :: "('k \<rightharpoonup> ('k \<rightharpoonup> int)) \<Rightarrow> bool" where
  "tableFinite confusion = (finite (dom confusion) \<and> (\<forall>a. finite (keys (confusion a))))"


section \<open>The raw log-score as the specification words it\<close>

text \<open>
  \<open>count(C, t)\<close>: how often token \<open>t\<close> was seen for class \<open>C\<close>, 0 when it never was.
\<close>

definition tokenCount :: "'r NaiveBayesClassifier \<Rightarrow> 'r list \<Rightarrow> 'r list \<Rightarrow> int" where
  "tokenCount nb C t = intAt (mapAt (classWordCounts nb) C) t"

text \<open>
  \<open>log(classDocCounts[C] / totalDocs)\<close> plus, for each token \<open>t\<close> of the text,
  \<open>log((count(C, t) + 1) / (classTotalWords[C] + |vocabulary|))\<close>, added up in the order
  of the tokens.
\<close>

definition smoothedTerm :: "'r NaiveBayesClassifier \<Rightarrow> 'r list \<Rightarrow> 'r list \<Rightarrow> float64" where
  "smoothedTerm nb C t =
     math_Log (fdiv (fadd (float64_of_int (tokenCount nb C t)) (Finite 1))
                    (fadd (float64_of_int (intAt (classTotalWords nb) C))
                          (float64_of_int (int (fcard (vocabulary nb))))))"

definition rawScore :: "'r NaiveBayesClassifier \<Rightarrow> 'r list list \<Rightarrow> 'r list \<Rightarrow> float64" where
  "rawScore nb tokens C =
     foldl fadd
       (math_Log (fdiv (float64_of_int (intAt (classDocCounts nb) C)) (float64_of_int (totalDocs nb))))
       (map (smoothedTerm nb C) tokens)"

text \<open>The classes that \<open>Predict\<close> scores: those whose document count is not 0.\<close>

definition scored :: "'r NaiveBayesClassifier \<Rightarrow> 'r list \<Rightarrow> bool" where
  "scored nb C = (intAt (classDocCounts nb) C \<noteq> 0)"

text \<open>
  A scored class holds the maximum when its raw log-score is greater than \<open>-Inf\<close> and no
  scored class has a greater one.
\<close>

definition holdsMaximum :: "'r NaiveBayesClassifier \<Rightarrow> 'r list list \<Rightarrow> 'r list \<Rightarrow> bool" where
  "holdsMaximum nb tokens C =
     (scored nb C \<and> fgt (rawScore nb tokens C) NegInf
      \<and> (\<forall>C'. scored nb C' \<longrightarrow> \<not> fgt (rawScore nb tokens C') (rawScore nb tokens C)))"

text \<open>
  The running maximum of the loop of \<open>Predict\<close>, on its own: \<open>s\<close> gives the score of a
  class, the state is \<open>(bestLabel, bestScore)\<close>.
\<close>

fun runningBest :: "('k \<Rightarrow> float64) \<Rightarrow> 'k list \<Rightarrow> 'k \<times> float64 \<Rightarrow> 'k \<times> float64" where
  "runningBest s [] st = st"
| "runningBest s (c # cs) (bestLabel, bestScore) =
     (if fgt (s c) bestScore then runningBest s cs (c, s c)
      else runningBest s cs (bestLabel, bestScore))"

text \<open>
  The loop of \<open>Predict\<close> as \<open>Predict\<close> runs it: its result is the table of raw
  log-scores, the label that \<open>Predict\<close> returns and the best score.
\<close>

definition predictScores ::
  "'r unicode \<Rightarrow> 'r NaiveBayesClassifier \<Rightarrow> 'r list list \<Rightarrow> 'r list \<Rightarrow>
   ('r list \<rightharpoonup> float64) \<times> 'r list \<times> float64" where
  "predictScores U nb classOrder text =
     scoreClasses nb (tokenize U text) (float64_of_int (int (fcard (vocabulary nb)))) classOrder
       (Map.empty, [], NegInf)"

section \<open>Example states\<close>

text \<open>The classifier after \<open>Train("good", "pos")\<close>.\<close>

definition trainedOnce :: "char NaiveBayesClassifier" where
  "trainedOnce =
     \<lparr> classDocCounts = Some [''pos'' \<mapsto> 1],
       classWordCounts = Some [''pos'' \<mapsto> Some [''good'' \<mapsto> 1]],
       classTotalWords = Some [''pos'' \<mapsto> 1],
       vocabulary = {|''good''|}, totalDocs = 1 \<rparr>"

text \<open>The classifier after \<open>Train("fine", "x")\<close> and \<open>Train("fine", "y")\<close>.\<close>

definition tiedModel :: "char NaiveBayesClassifier" where
  "tiedModel =
     \<lparr> classDocCounts = Some [''x'' \<mapsto> 1, ''y'' \<mapsto> 1],
       classWordCounts = Some [''x'' \<mapsto> Some [''fine'' \<mapsto> 1], ''y'' \<mapsto> Some [''fine'' \<mapsto> 1]],
       classTotalWords = Some [''x'' \<mapsto> 1, ''y'' \<mapsto> 1],
       vocabulary = {|''fine''|}, totalDocs = 2 \<rparr>"

text \<open>The classifier after \<open>Train("!!", "pos")\<close>: one document, no token.\<close>

definition trainedWithoutTokens :: "char NaiveBayesClassifier" where
  "trainedWithoutTokens =
     \<lparr> classDocCounts = Some [''pos'' \<mapsto> 1],
       classWordCounts = Some [''pos'' \<mapsto> Some Map.empty],
       classTotalWords = Some Map.empty,
       vocabulary = {||}, totalDocs = 1 \<rparr>"

text \<open>A snapshot with negative counts, and one whose \<open>total_docs\<close> is negative.\<close>

definition negativeSnapshot :: "char Snapshot" where
  "negativeSnapshot =
     \<lparr> ClassDocCounts = Some [''a'' \<mapsto> - 1], ClassWordCounts = Some Map.empty,
       ClassTotalWords = Some Map.empty, Vocabulary = [], TotalDocs = - 1 \<rparr>"

definition negativeTotalSnapshot :: "char Snapshot" where
  "negativeTotalSnapshot =
     \<lparr> ClassDocCounts = Some [''a'' \<mapsto> 1], ClassWordCounts = Some Map.empty,
       ClassTotalWords = Some Map.empty, Vocabulary = [], TotalDocs = - 1 \<rparr>"

text \<open>
  The classifier after \<open>Train("good", "pos")\<close>, \<open>Train("good", "pos")\<close> and
  \<open>Train("bad", "neg")\<close>.
\<close>

definition twoClassModel :: "char NaiveBayesClassifier" where
  "twoClassModel =
     \<lparr> classDocCounts = Some [''pos'' \<mapsto> 2, ''neg'' \<mapsto> 1],
       classWordCounts = Some [''pos'' \<mapsto> Some [''good'' \<mapsto> 2], ''neg'' \<mapsto> Some [''bad'' \<mapsto> 1]],
       classTotalWords = Some [''pos'' \<mapsto> 2, ''neg'' \<mapsto> 1],
       vocabulary = {|''bad'', ''good''|}, totalDocs = 3 \<rparr>"

text \<open>The value that the first loop of \<open>normalizeScores\<close> stores for a class.\<close>

definition expValue :: "('k \<rightharpoonup> float64) \<Rightarrow> float64 \<Rightarrow> 'k \<Rightarrow> float64" where
  "expValue scores bestScore C =
     (case scores C of None \<Rightarrow> NaN | Some logProb \<Rightarrow> math_Exp (fsub logProb bestScore))"

text \<open>A score that is a number or \<open>+Inf\<close>: neither \<open>NaN\<close> nor \<open>-Inf\<close>.\<close>

fun aboveNegInf :: "float64 \<Rightarrow> bool" where
  "aboveNegInf (Finite x) = True"
| "aboveNegInf PosInf = True"
| "aboveNegInf _ = False"

text \<open>
  A snapshot whose document counters hold the largest \<open>int\<close>, and the snapshot that
  decoding a JSON document without the field \<open>class_total_words\<close> gives.
\<close>

definition fullSnapshot :: "char Snapshot" where
  "fullSnapshot =
     \<lparr> ClassDocCounts = Some [''pos'' \<mapsto> maxInt], ClassWordCounts = Some Map.empty,
       ClassTotalWords = Some Map.empty, Vocabulary = [], TotalDocs = maxInt \<rparr>"

definition noTotalsSnapshot :: "char Snapshot" where
  "noTotalsSnapshot =
     \<lparr> ClassDocCounts = Some Map.empty, ClassWordCounts = Some Map.empty,
       ClassTotalWords = None, Vocabulary = [], TotalDocs = 0 \<rparr>"

section \<open>The tokenizer splits the lower-cased text into its maximal runs\<close>

lemma splitRuns_done: "dropWhile d xs = [] \<Longrightarrow> splitRuns d xs = []"
  by (subst splitRuns.simps) (simp del: dropWhile_eq_Nil_conv)

lemma splitRuns_step:
  "dropWhile d xs = y # ys \<Longrightarrow>
     splitRuns d xs = takeWhile (\<lambda>r. \<not> d r) (y # ys) # splitRuns d (dropWhile (\<lambda>r. \<not> d r) (y # ys))"
  by (subst splitRuns.simps) simp

lemma splitRuns_Nil: "splitRuns d [] = []"
  by (simp add: splitRuns_done)

lemma splitRuns_sep: "d c \<Longrightarrow> splitRuns d (c # cs) = splitRuns d cs"
  by (subst splitRuns.simps, subst (2) splitRuns.simps) simp

lemma splitRuns_tok:
  "\<not> d c \<Longrightarrow> splitRuns d (c # cs) =
     (c # takeWhile (\<lambda>r. \<not> d r) cs) # splitRuns d (dropWhile (\<lambda>r. \<not> d r) cs)"
  by (subst splitRuns.simps) simp

lemma fieldsLoop_splitRuns:
  "fieldsLoop d xs cur spans =
     (case cur of
        None \<Rightarrow> spans @ splitRuns d xs
      | Some w \<Rightarrow> spans @ (w @ takeWhile (\<lambda>r. \<not> d r) xs) # splitRuns d (dropWhile (\<lambda>r. \<not> d r) xs))"
proof (induction xs arbitrary: cur spans)
  case Nil
  show ?case by (simp add: splitRuns_Nil split: option.split)
next
  case (Cons c cs)
  show ?case
  proof (cases "d c")
    case True
    then show ?thesis by (simp add: Cons.IH splitRuns_sep split: option.split)
  next
    case False
    then show ?thesis by (simp add: Cons.IH splitRuns_tok split: option.split)
  qed
qed

lemma FieldsFunc_splitRuns: "FieldsFunc d xs = splitRuns d xs"
  by (simp add: FieldsFunc_def fieldsLoop_splitRuns)

lemma splitRuns_nonempty: "[] \<notin> set (splitRuns d xs)"
proof (induction d xs rule: splitRuns.induct)
  case (1 d xs)
  show ?case
  proof (cases "dropWhile d xs")
    case Nil
    then show ?thesis by (simp add: splitRuns_done)
  next
    case (Cons y ys)
    then have "\<not> d y" by (metis hd_dropWhile list.distinct(1) list.sel(1))
    with Cons 1[OF Cons] show ?thesis by (simp add: splitRuns_step)
  qed
qed

lemma splitRuns_runes: "t \<in> set (splitRuns d xs) \<Longrightarrow> r \<in> set t \<Longrightarrow> \<not> d r"
proof (induction d xs rule: splitRuns.induct)
  case (1 d xs)
  show ?case
  proof (cases "dropWhile d xs")
    case Nil
    with 1(2) show ?thesis by (simp add: splitRuns_done)
  next
    case (Cons y ys)
    from 1(2) Cons have "t = takeWhile (\<lambda>r. \<not> d r) (y # ys) \<or> t \<in> set (splitRuns d (dropWhile (\<lambda>r. \<not> d r) (y # ys)))"
      by (simp add: splitRuns_step)
    then show ?thesis
    proof
      assume "t = takeWhile (\<lambda>r. \<not> d r) (y # ys)"
      with 1(3) show ?thesis by (metis set_takeWhileD)
    next
      assume "t \<in> set (splitRuns d (dropWhile (\<lambda>r. \<not> d r) (y # ys)))"
      with 1(1)[OF Cons] 1(3) show ?thesis by simp
    qed
  qed
qed

lemma filter_dropWhile_sep: "filter (\<lambda>r. \<not> d r) (dropWhile d xs) = filter (\<lambda>r. \<not> d r) xs"
  by (induction xs) auto

lemma filter_split_run:
  "takeWhile (\<lambda>r. \<not> d r) xs @ filter (\<lambda>r. \<not> d r) (dropWhile (\<lambda>r. \<not> d r) xs) = filter (\<lambda>r. \<not> d r) xs"
  by (induction xs) auto

lemma concat_splitRuns: "concat (splitRuns d xs) = filter (\<lambda>r. \<not> d r) xs"
proof (induction d xs rule: splitRuns.induct)
  case (1 d xs)
  show ?case
  proof (cases "dropWhile d xs")
    case Nil
    then have "filter (\<lambda>r. \<not> d r) xs = []"
      using filter_dropWhile_sep[of d xs] by simp
    with Nil show ?thesis by (simp add: splitRuns_done)
  next
    case (Cons y ys)
    have "concat (splitRuns d xs) =
        takeWhile (\<lambda>r. \<not> d r) (y # ys) @ concat (splitRuns d (dropWhile (\<lambda>r. \<not> d r) (y # ys)))"
      using Cons by (simp add: splitRuns_step)
    also have "\<dots> = takeWhile (\<lambda>r. \<not> d r) (y # ys) @ filter (\<lambda>r. \<not> d r) (dropWhile (\<lambda>r. \<not> d r) (y # ys))"
      using 1[OF Cons] by simp
    also have "\<dots> = filter (\<lambda>r. \<not> d r) (y # ys)" by (rule filter_split_run)
    also have "\<dots> = filter (\<lambda>r. \<not> d r) xs" using Cons filter_dropWhile_sep[of d xs] by simp
    finally show ?thesis .
  qed
qed

lemma fieldsLoop_collapse:
  "d a \<Longrightarrow> d b \<Longrightarrow> fieldsLoop d (xs @ a # b # ys) cur spans = fieldsLoop d (xs @ a # ys) cur spans"
  by (induction xs arbitrary: cur spans) (simp_all split: option.split)

lemma tokenize_eq_splitRuns: "tokenize U text = splitRuns (isSeparator U) (map (ToLower U) text)"
  by (simp add: tokenize_def strings_ToLower_def FieldsFunc_splitRuns)

lemma tokenize_no_empty: "[] \<notin> set (tokenize U text)"
  unfolding tokenize_eq_splitRuns by (rule splitRuns_nonempty)

lemma tok_good: "tokenize ascii ''good'' = [''good'']" by code_simp
lemma tok_fine: "tokenize ascii ''fine'' = [''fine'']" by code_simp
lemma tok_bang: "tokenize ascii ''!!'' = []" by code_simp
lemma tok_hello: "tokenize ascii ''hello'' = [''hello'']" by code_simp
lemma tok_empty: "tokenize U [] = []" by (simp add: tokenize_def strings_ToLower_def FieldsFunc_def)
lemma tok_bad: "tokenize ascii ''bad'' = [''bad'']" by code_simp
lemma tok_quest: "tokenize ascii ''??'' = []" by code_simp
lemma tok_good_film: "tokenize ascii ''Good film'' = [''good'', ''film'']" by code_simp

text \<open>
  C5 (amended). For every input, \<open>tokenize\<close> returns the lower-cased input split at its
  maximal runs of runes that are neither letters nor numbers, under the classification of
  \<open>unicode.IsLetter\<close> and \<open>unicode.IsNumber\<close> (whatever the tables are): the result is the
  list of maximal runs of letters and numbers of the lower-cased text, in order. No token
  is empty, every rune of a token is a letter or a number, the tokens together are the
  letters and numbers of the lower-cased text, and a separator next to a separator
  changes nothing.
\<close>

theorem tokenize_splits_lowered_text:
  "tokenize U text = splitRuns (\<lambda>r. \<not> IsLetter U r \<and> \<not> IsNumber U r) (map (ToLower U) text)
   \<and> [] \<notin> set (tokenize U text)
   \<and> (\<forall>t \<in> set (tokenize U text). \<forall>r \<in> set t. IsLetter U r \<or> IsNumber U r)
   \<and> concat (tokenize U text) = filter (\<lambda>r. IsLetter U r \<or> IsNumber U r) (map (ToLower U) text)
   \<and> (\<not> IsLetter U (ToLower U a) \<and> \<not> IsNumber U (ToLower U a) \<and>
      \<not> IsLetter U (ToLower U b) \<and> \<not> IsNumber U (ToLower U b) \<longrightarrow>
        tokenize U (xs @ a # b # ys) = tokenize U (xs @ a # ys))"
proof -
  let ?d = "\<lambda>r. \<not> IsLetter U r \<and> \<not> IsNumber U r"
  have sep: "isSeparator U = ?d" by (rule ext) (simp add: isSeparator_def)
  have eq: "tokenize U text = splitRuns ?d (map (ToLower U) text)"
    by (simp add: tokenize_def strings_ToLower_def FieldsFunc_splitRuns sep)
  have ne: "[] \<notin> set (tokenize U text)" unfolding eq by (rule splitRuns_nonempty)
  have runes: "\<forall>t \<in> set (tokenize U text). \<forall>r \<in> set t. IsLetter U r \<or> IsNumber U r"
    unfolding eq using splitRuns_runes[of _ ?d] by blast
  have cc: "concat (tokenize U text) = filter (\<lambda>r. IsLetter U r \<or> IsNumber U r) (map (ToLower U) text)"
    unfolding eq by (simp add: concat_splitRuns)
  have col: "?d (ToLower U a) \<and> ?d (ToLower U b) \<longrightarrow>
        tokenize U (xs @ a # b # ys) = tokenize U (xs @ a # ys)"
    by (simp add: tokenize_def strings_ToLower_def FieldsFunc_def sep fieldsLoop_collapse)
  from eq ne runes cc col show ?thesis by blast
qed

theorem tokenize_splits_lowered_text_witness:
  "\<not> IsLetter ascii (ToLower ascii CHR '','') \<and> \<not> IsNumber ascii (ToLower ascii CHR '','')
   \<and> \<not> IsLetter ascii (ToLower ascii CHR '' '') \<and> \<not> IsNumber ascii (ToLower ascii CHR '' '')
   \<and> tokenize ascii (''Hi'' @ CHR '','' # CHR '' '' # ''Yo2'') = tokenize ascii (''Hi'' @ CHR '','' # ''Yo2'')
   \<and> tokenize ascii ''Hi, Yo2'' = [''hi'', ''yo2'']
   \<and> [] \<notin> set (tokenize ascii ''Hi, Yo2'')"
proof -
  have h: "\<not> IsLetter ascii (ToLower ascii CHR '','') \<and> \<not> IsNumber ascii (ToLower ascii CHR '','')
   \<and> \<not> IsLetter ascii (ToLower ascii CHR '' '') \<and> \<not> IsNumber ascii (ToLower ascii CHR '' '')"
    by code_simp
  note t = tokenize_splits_lowered_text[of ascii "''Hi, Yo2''" "CHR '',''" "CHR '' ''" "''Hi''" "''Yo2''"]
  have c: "tokenize ascii (''Hi'' @ CHR '','' # CHR '' '' # ''Yo2'') = tokenize ascii (''Hi'' @ CHR '','' # ''Yo2'')"
    using t h by blast
  have e: "tokenize ascii ''Hi, Yo2'' = [''hi'', ''yo2'']" by code_simp
  have n: "[] \<notin> set (tokenize ascii ''Hi, Yo2'')" using t by blast
  from h c e n show ?thesis by blast
qed

text \<open>
  The claim as stated, with digits, fails for a number that is no digit: \<open>tokenize\<close> keeps
  the text \<open>a\<close>, \<open>U+00BD\<close>, \<open>b\<close> as one token, where splitting at the runes that are neither
  letters nor digits gives the two tokens \<open>a\<close> and \<open>b\<close>.
\<close>

theorem tokenize_keeps_numbers_that_are_no_digits:
  "IsNumber codePoints 189 \<and> \<not> codePointIsDigit 189 \<and> \<not> IsLetter codePoints 189
   \<and> tokenize codePoints [97, 189, 98] = [[97, 189, 98]]
   \<and> splitAtNonDigits codePoints codePointIsDigit [97, 189, 98] = [[97], [98]]"
  by (simp add: tokenize_def strings_ToLower_def FieldsFunc_def isSeparator_def splitAtNonDigits_def
      codePoints_def codePointIsDigit_def splitRuns_step splitRuns_done)



section \<open>A snapshot restores the state it was taken from\<close>

lemma restrict_dom: "f |` dom f = f"
proof (rule ext)
  fix k show "(f |` dom f) k = f k"
    by (cases "f k") (simp_all add: restrict_map_def domIff)
qed

lemma copyIntMap_id: "copyIntMap m = m"
  by (simp add: copyIntMap_def restrict_dom split: option.split)

lemma copyNestedMap_id: "copyNestedMap m = m"
proof (cases m)
  case None
  then show ?thesis by (simp add: copyNestedMap_def)
next
  case (Some f)
  have "(\<lambda>k. map_option copyIntMap (f k)) = f"
    by (rule ext) (simp add: copyIntMap_id[abs_def] option.map_ident)
  with Some show ?thesis by (simp add: copyNestedMap_def)
qed

lemma fold_finsert: "fold finsert xs A = fset_of_list xs |\<union>| A"
  by (induction xs arbitrary: A) auto

lemma LoadSnapshot_Snapshot: "LoadSnapshot nb0 (Snapshot nb) = nb"
  by (simp add: LoadSnapshot_def Snapshot_def copyIntMap_id copyNestedMap_id fold_finsert)

text \<open>
  C4. Loading the snapshot of a model, into any classifier, gives a model whose
  \<open>classDocCounts\<close>, \<open>classWordCounts\<close>, \<open>classTotalWords\<close>, \<open>vocabulary\<close>
  and \<open>totalDocs\<close> are those of the original (the snapshot lists the vocabulary
  sorted and without repetition, the loaded model holds it as the same set), so the
  loaded model is the original and \<open>Predict\<close> returns the same on both for
  every text and every iteration order.
\<close>

theorem snapshot_round_trip:
  "classDocCounts (LoadSnapshot nb0 (Snapshot nb)) = classDocCounts nb
   \<and> classWordCounts (LoadSnapshot nb0 (Snapshot nb)) = classWordCounts nb
   \<and> classTotalWords (LoadSnapshot nb0 (Snapshot nb)) = classTotalWords nb
   \<and> vocabulary (LoadSnapshot nb0 (Snapshot nb)) = vocabulary nb
   \<and> totalDocs (LoadSnapshot nb0 (Snapshot nb)) = totalDocs nb
   \<and> LoadSnapshot nb0 (Snapshot nb) = nb
   \<and> sorted (Vocabulary (Snapshot nb)) \<and> distinct (Vocabulary (Snapshot nb))
   \<and> set (Vocabulary (Snapshot nb)) = fset (vocabulary nb)
   \<and> (\<forall>classOrder scoreOrder text.
        Predict U (LoadSnapshot nb0 (Snapshot nb)) classOrder scoreOrder text
          = Predict U nb classOrder scoreOrder text)"
proof -
  have "sorted (Vocabulary (Snapshot nb)) \<and> distinct (Vocabulary (Snapshot nb))
      \<and> set (Vocabulary (Snapshot nb)) = fset (vocabulary nb)"
    by (simp add: Snapshot_def sorted_list_of_fset.rep_eq)
  then show ?thesis by (simp add: LoadSnapshot_Snapshot)
qed


section \<open>Training: what one call changes, and when it panics\<close>

lemma goInc_below: "x < maxInt \<Longrightarrow> goInc x = x + 1"
  by (simp add: goInc_def)

lemma incrAt_Some: "incrAt (Some f) k = Inr (Some (f(k \<mapsto> goInc (intAt (Some f) k))))"
  by (simp add: incrAt_def)

lemma incrAt_None: "incrAt None k = Inl NilMapWrite"
  by (simp add: incrAt_def)

lemma incrAt_Inr: "incrAt m k = Inr m' \<Longrightarrow> \<exists>f. m = Some f \<and> m' = Some (f(k \<mapsto> goInc (intAt m k)))"
  by (cases m) (auto simp: incrAt_def)

lemma intAt_incrAt: "incrAt m k = Inr m' \<Longrightarrow> intAt m' j = (if j = k then goInc (intAt m k) else intAt m j)"
  by (auto dest!: incrAt_Inr simp: intAt_def)

lemma trainTokens_frame:
  "trainTokens nb label toks = Inr nb' \<Longrightarrow>
     totalDocs nb' = totalDocs nb \<and> classDocCounts nb' = classDocCounts nb
     \<and> vocabulary nb |\<subseteq>| vocabulary nb'"
proof (induction toks arbitrary: nb)
  case Nil
  then show ?case by simp
next
  case (Cons token rest)
  show ?case
  proof (cases "token = []")
    case True
    with Cons show ?thesis by simp
  next
    case False
    from Cons.prems False obtain inner outer totals where
      rec: "trainTokens (nb\<lparr>vocabulary := finsert token (vocabulary nb),
                             classWordCounts := Some (outer(label \<mapsto> inner)),
                             classTotalWords := totals\<rparr>) label rest = Inr nb'"
      by (auto simp: Let_def split: sum.splits option.splits)
    from Cons.IH[OF rec] show ?thesis by auto
  qed
qed

lemma trainTokens_ok:
  "noNilMaps nb \<Longrightarrow> mapAt (classWordCounts nb) label \<noteq> None \<Longrightarrow>
     \<exists>nb'. trainTokens nb label toks = Inr nb' \<and> noNilMaps nb'"
proof (induction toks arbitrary: nb)
  case Nil
  then show ?case by simp
next
  case (Cons token rest)
  show ?case
  proof (cases "token = []")
    case True
    with Cons show ?thesis by simp
  next
    case False
    from Cons.prems obtain outer inner totals where
      o: "classWordCounts nb = Some outer" and i: "outer label = Some (Some inner)"
      and t: "classTotalWords nb = Some totals" and pres: "\<forall>k. outer k \<noteq> Some None"
      by (auto simp: noNilMaps_def innerMapsPresent_def mapAt_def split: option.splits)
    let ?inner' = "Some (inner(token \<mapsto> goInc (intAt (Some inner) token)))"
    let ?totals' = "Some (totals(label \<mapsto> goInc (intAt (Some totals) label)))"
    let ?nb3 = "nb\<lparr>vocabulary := finsert token (vocabulary nb),
                    classWordCounts := Some (outer(label \<mapsto> ?inner')),
                    classTotalWords := ?totals'\<rparr>"
    have step: "trainTokens nb label (token # rest) = trainTokens ?nb3 label rest"
      using False o i t by (simp add: Let_def mapAt_def incrAt_def)
    have "noNilMaps ?nb3" using Cons.prems(1) pres
      by (simp add: noNilMaps_def innerMapsPresent_def)
    moreover have "mapAt (classWordCounts ?nb3) label \<noteq> None" by (simp add: mapAt_def)
    ultimately show ?thesis using Cons.IH[of ?nb3] step by simp
  qed
qed

lemma Train_frame:
  assumes "Train U nb text label = Inr nb'"
  shows "totalDocs nb' = goInc (totalDocs nb)"
    and "intAt (classDocCounts nb') L = (if L = label then goInc (intAt (classDocCounts nb) label) else intAt (classDocCounts nb) L)"
    and "vocabulary nb |\<subseteq>| vocabulary nb'"
  using assms
  by (auto simp: Train_def Let_def intAt_incrAt dest!: trainTokens_frame split: sum.splits option.splits)

lemma Train_ok: "noNilMaps nb \<Longrightarrow> \<exists>nb'. Train U nb text label = Inr nb' \<and> noNilMaps nb'"
proof -
  assume n: "noNilMaps nb"
  then obtain counts outer where c: "classDocCounts nb = Some counts"
    and o: "classWordCounts nb = Some outer" and pres: "\<forall>k. outer k \<noteq> Some None"
    by (auto simp: noNilMaps_def innerMapsPresent_def split: option.splits)
  let ?nb2 = "nb\<lparr>totalDocs := goInc (totalDocs nb),
                  classDocCounts := Some (counts(label \<mapsto> goInc (intAt (Some counts) label)))\<rparr>"
  let ?nb3 = "(case outer label of
                 None \<Rightarrow> ?nb2\<lparr>classWordCounts := Some (outer(label \<mapsto> Some Map.empty))\<rparr>
               | Some _ \<Rightarrow> ?nb2)"
  have step: "Train U nb text label = trainTokens ?nb3 label (tokenize U text)"
    using c o by (simp add: Train_def Let_def incrAt_def)
  have "noNilMaps ?nb3" using n o pres
    by (auto simp: noNilMaps_def innerMapsPresent_def split: option.splits)
  moreover have "mapAt (classWordCounts ?nb3) label \<noteq> None"
  proof (cases "outer label")
    case None
    then show ?thesis by (simp add: mapAt_def)
  next
    case (Some inner)
    with pres have "inner \<noteq> None" by metis
    with Some o show ?thesis by (simp add: mapAt_def)
  qed
  ultimately show ?thesis using trainTokens_ok[of ?nb3 label] step by simp
qed

lemma TrainBatch_ok: "noNilMaps nb \<Longrightarrow> \<exists>nb'. TrainBatch U nb docs = Inr nb' \<and> noNilMaps nb'"
proof (induction docs arbitrary: nb)
  case Nil
  then show ?case by simp
next
  case (Cons doc docs)
  from Train_ok[OF Cons.prems] obtain nb1 where
    t: "Train U nb (Text doc) (Label doc) = Inr nb1" and n: "noNilMaps nb1" by blast
  from Cons.IH[OF n] t show ?case by simp
qed

lemma noNilMaps_New: "noNilMaps NewNaiveBayesClassifier"
  by (simp add: noNilMaps_def innerMapsPresent_def NewNaiveBayesClassifier_def)

lemma noNilMaps_Reset: "noNilMaps (Reset nb)"
  by (simp add: noNilMaps_def innerMapsPresent_def Reset_def)

lemma noNilMaps_LoadSnapshot: "snapshotNoNilMaps s \<Longrightarrow> noNilMaps (LoadSnapshot nb s)"
  by (simp add: noNilMaps_def snapshotNoNilMaps_def LoadSnapshot_def copyIntMap_id copyNestedMap_id)

subsection \<open>When training panics\<close>

lemma error_is: "(e :: error) = NilMapWrite"
  by (cases e) simp

lemma not_Inl_is_Inr: "(r :: error + 'a) \<noteq> Inl NilMapWrite \<Longrightarrow> \<exists>x. r = Inr x"
  by (cases r) (simp_all add: error_is)

lemma trainTokens_returns:
  "mapAt (classWordCounts nb) label \<noteq> None \<Longrightarrow> classTotalWords nb \<noteq> None \<Longrightarrow>
     \<exists>nb'. trainTokens nb label toks = Inr nb'"
proof (induction toks arbitrary: nb)
  case Nil
  then show ?case by simp
next
  case (Cons token rest)
  show ?case
  proof (cases "token = []")
    case True
    with Cons show ?thesis by simp
  next
    case False
    from Cons.prems obtain outer inner totals where
      o: "classWordCounts nb = Some outer" and i: "outer label = Some (Some inner)"
      and t: "classTotalWords nb = Some totals"
      by (auto simp: mapAt_def split: option.splits)
    let ?inner' = "Some (inner(token \<mapsto> goInc (intAt (Some inner) token)))"
    let ?totals' = "Some (totals(label \<mapsto> goInc (intAt (Some totals) label)))"
    let ?nb3 = "nb\<lparr>vocabulary := finsert token (vocabulary nb),
                    classWordCounts := Some (outer(label \<mapsto> ?inner')),
                    classTotalWords := ?totals'\<rparr>"
    have step: "trainTokens nb label (token # rest) = trainTokens ?nb3 label rest"
      using False o i t by (simp add: Let_def mapAt_def incrAt_def)
    have "mapAt (classWordCounts ?nb3) label \<noteq> None" by (simp add: mapAt_def)
    moreover have "classTotalWords ?nb3 \<noteq> None" by simp
    ultimately show ?thesis using Cons.IH[of ?nb3] step by simp
  qed
qed

lemma trainTokens_panics:
  assumes "token \<noteq> []" and "mapAt (classWordCounts nb) label = None \<or> classTotalWords nb = None"
  shows "trainTokens nb label (token # rest) = Inl NilMapWrite"
proof (cases "mapAt (classWordCounts nb) label")
  case None
  with assms(1) show ?thesis by (simp add: Let_def incrAt_def)
next
  case (Some inner)
  with assms(2) have t: "classTotalWords nb = None" by simp
  from Some obtain outer where "classWordCounts nb = Some outer"
    by (auto simp: mapAt_def split: option.splits)
  with assms(1) Some t show ?thesis by (simp add: Let_def incrAt_def)
qed

lemma trainTokens_panics_iff:
  assumes "[] \<notin> set toks"
  shows "(trainTokens nb label toks = Inl NilMapWrite)
     = (toks \<noteq> [] \<and> (mapAt (classWordCounts nb) label = None \<or> classTotalWords nb = None))"
proof (cases toks)
  case Nil
  then show ?thesis by simp
next
  case (Cons token rest)
  with assms have ne: "token \<noteq> []" by auto
  show ?thesis
  proof (cases "mapAt (classWordCounts nb) label = None \<or> classTotalWords nb = None")
    case True
    from trainTokens_panics[OF ne True] Cons True show ?thesis by simp
  next
    case False
    then have a: "mapAt (classWordCounts nb) label \<noteq> None" and b: "classTotalWords nb \<noteq> None"
      by simp_all
    from trainTokens_returns[OF a b, of toks] obtain nb' where "trainTokens nb label toks = Inr nb'"
      by blast
    with False show ?thesis by simp
  qed
qed

lemma Train_panics_iff: "(Train U nb text label = Inl NilMapWrite) = trainPanics U nb text label"
proof (cases "classDocCounts nb")
  case None
  then show ?thesis by (simp add: Train_def trainPanics_def incrAt_def)
next
  case (Some counts)
  note c = this
  show ?thesis
  proof (cases "classWordCounts nb")
    case None
    with c show ?thesis by (simp add: Train_def trainPanics_def incrAt_def)
  next
    case (Some outer)
    let ?nb2 = "nb\<lparr>totalDocs := goInc (totalDocs nb),
                    classDocCounts := Some (counts(label \<mapsto> goInc (intAt (Some counts) label)))\<rparr>"
    let ?nb3 = "(case outer label of
                   None \<Rightarrow> ?nb2\<lparr>classWordCounts := Some (outer(label \<mapsto> Some Map.empty))\<rparr>
                 | Some _ \<Rightarrow> ?nb2)"
    have step: "Train U nb text label = trainTokens ?nb3 label (tokenize U text)"
      using c Some by (simp add: Train_def Let_def incrAt_def)
    have inner: "(mapAt (classWordCounts ?nb3) label = None) = nilInnerMap (classWordCounts nb) label"
      using Some by (cases "outer label") (simp_all add: mapAt_def nilInnerMap_def)
    have totals: "classTotalWords ?nb3 = classTotalWords nb"
      by (cases "outer label") simp_all
    have "[] \<notin> set (tokenize U text)" by (rule tokenize_no_empty)
    from trainTokens_panics_iff[OF this, of ?nb3 label] step inner totals c Some
    show ?thesis by (simp add: trainPanics_def)
  qed
qed

lemma Train_returns: "\<not> trainPanics U nb text label \<Longrightarrow> \<exists>nb'. Train U nb text label = Inr nb'"
  using Train_panics_iff[of U nb "text" label] not_Inl_is_Inr[of "Train U nb text label"] by simp

lemma TrainBatch_panics_iff: "(TrainBatch U nb docs = Inl NilMapWrite) = batchPanics U nb docs"
proof (induction docs arbitrary: nb)
  case Nil
  show ?case by simp
next
  case (Cons doc docs)
  show ?case
  proof (cases "Train U nb (Text doc) (Label doc)")
    case (Inl e)
    then have "Train U nb (Text doc) (Label doc) = Inl NilMapWrite" by (simp add: error_is)
    with Train_panics_iff[of U nb "Text doc" "Label doc"] show ?thesis by simp
  next
    case (Inr nb1)
    with Train_panics_iff[of U nb "Text doc" "Label doc"]
    have "\<not> trainPanics U nb (Text doc) (Label doc)" by simp
    with Inr Cons.IH[of nb1] show ?thesis by simp
  qed
qed

lemma TrainBatch_returns: "\<not> batchPanics U nb docs \<Longrightarrow> \<exists>nb'. TrainBatch U nb docs = Inr nb'"
  using TrainBatch_panics_iff[of U nb docs] not_Inl_is_Inr[of "TrainBatch U nb docs"] by simp

lemma noNilMaps_not_trainPanics: "noNilMaps nb \<Longrightarrow> \<not> trainPanics U nb text label"
  by (auto simp: noNilMaps_def trainPanics_def innerMapsPresent_def nilInnerMap_def split: option.splits)

subsection \<open>The other operations write to maps they have made\<close>

lemma innerMapsPresent_at: "innerMapsPresent (Some outer) \<Longrightarrow> outer k = Some inner \<Longrightarrow> inner \<noteq> None"
proof
  assume p: "innerMapsPresent (Some outer)" and k: "outer k = Some inner" and n: "inner = None"
  from p have "outer k \<noteq> Some None" by (simp add: innerMapsPresent_def)
  with k n show False by simp
qed

lemma storeAt_Some: "storeAt (Some f) k v = Inr (Some (f(k \<mapsto> v)))"
  by (simp add: storeAt_def)

lemma entryAt_Some: "entryAt (Some f) k = f k"
  by (simp add: entryAt_def)

lemma scoreClassesChecked_eq:
  "scoreClassesChecked nb toks vocabSize order (Some scores, bestLabel, bestScore)
     = (case scoreClasses nb toks vocabSize order (scores, bestLabel, bestScore) of
          (scores', bestLabel', bestScore') \<Rightarrow> Inr (Some scores', bestLabel', bestScore'))"
  by (induction order arbitrary: scores bestLabel bestScore) (simp_all add: Let_def storeAt_Some)

lemma expLoopChecked_eq:
  "expLoopChecked (Some scores) bestScore order (Some normalized, acc)
     = (case expLoop scores bestScore order (normalized, acc) of
          (normalized', acc') \<Rightarrow> Inr (Some normalized', acc'))"
  by (induction order arbitrary: normalized acc)
     (simp_all add: Let_def storeAt_Some entryAt_Some split: option.split)

lemma divideLoop_returns: "\<exists>normalized'. divideLoop acc order (Some normalized) = Inr (Some normalized')"
  by (induction order arbitrary: normalized) (simp_all add: storeAt_Some entryAt_Some split: option.split)

lemma divideLoop_eq:
  "distinct order \<Longrightarrow>
     divideLoop acc order (Some normalized)
       = Inr (Some (\<lambda>k. if k \<in> set order then map_option (\<lambda>v. fdiv v acc) (normalized k) else normalized k))"
proof (induction order arbitrary: normalized)
  case Nil
  show ?case by simp
next
  case (Cons cl rest)
  then have d: "distinct rest" and n: "cl \<notin> set rest" by simp_all
  show ?case
  proof (cases "normalized cl")
    case None
    have eq: "(\<lambda>k. if k \<in> set rest then map_option (\<lambda>v. fdiv v acc) (normalized k) else normalized k)
        = (\<lambda>k. if k \<in> set (cl # rest) then map_option (\<lambda>v. fdiv v acc) (normalized k) else normalized k)"
      using None by (auto simp: fun_eq_iff)
    have "divideLoop acc (cl # rest) (Some normalized) = divideLoop acc rest (Some normalized)"
      using None by (simp add: entryAt_Some)
    also have "\<dots> = Inr (Some (\<lambda>k. if k \<in> set rest then map_option (\<lambda>v. fdiv v acc) (normalized k) else normalized k))"
      by (rule Cons.IH[OF d])
    finally show ?thesis unfolding eq .
  next
    case (Some v)
    define n' where "n' = normalized(cl \<mapsto> fdiv v acc)"
    have eq: "(\<lambda>k. if k \<in> set rest then map_option (\<lambda>v. fdiv v acc) (n' k) else n' k)
        = (\<lambda>k. if k \<in> set (cl # rest) then map_option (\<lambda>v. fdiv v acc) (normalized k) else normalized k)"
      using Some n by (auto simp: fun_eq_iff n'_def)
    have "divideLoop acc (cl # rest) (Some normalized) = divideLoop acc rest (Some n')"
      using Some by (simp add: entryAt_Some storeAt_Some n'_def)
    also have "\<dots> = Inr (Some (\<lambda>k. if k \<in> set rest then map_option (\<lambda>v. fdiv v acc) (n' k) else n' k))"
      by (rule Cons.IH[OF d])
    finally show ?thesis unfolding eq .
  qed
qed

lemma normalizeScoresChecked_returns:
  "\<exists>probs. normalizeScoresChecked scoreOrder divideOrder (Some scores) bestScore = Inr (Some probs)"
proof -
  obtain normalized acc where e: "expLoop scores bestScore scoreOrder (Map.empty, Finite 0) = (normalized, acc)"
    by (cases "expLoop scores bestScore scoreOrder (Map.empty, Finite 0)")
  from divideLoop_returns[of acc divideOrder normalized] e show ?thesis
    by (auto simp: normalizeScoresChecked_def expLoopChecked_eq)
qed

lemma normalizeScoresChecked_eq:
  assumes "rangeOrder (Some (normalizeScores scoreOrder scores bestScore)) divideOrder"
  shows "normalizeScoresChecked scoreOrder divideOrder (Some scores) bestScore
     = Inr (Some (normalizeScores scoreOrder scores bestScore))"
proof (cases "dom scores = {}")
  case True
  then show ?thesis by (simp add: normalizeScoresChecked_def normalizeScores_def keys_def)
next
  case False
  obtain normalized acc where e: "expLoop scores bestScore scoreOrder (Map.empty, Finite 0) = (normalized, acc)"
    by (cases "expLoop scores bestScore scoreOrder (Map.empty, Finite 0)")
  show ?thesis
  proof (cases "acc = Finite 0")
    case True
    with False e show ?thesis
      by (simp add: normalizeScoresChecked_def normalizeScores_def keys_def expLoopChecked_eq)
  next
    case nz: False
    from assms False e nz have d: "distinct divideOrder" and s: "set divideOrder = dom normalized"
      by (auto simp: rangeOrder_def keys_def normalizeScores_def dom_def)
    have "(\<lambda>k. if k \<in> set divideOrder then map_option (\<lambda>v. fdiv v acc) (normalized k) else normalized k)
        = (\<lambda>class. map_option (\<lambda>v. fdiv v acc) (normalized class))"
      using s by (auto simp: fun_eq_iff dom_def)
    with divideLoop_eq[OF d, of acc normalized] False e nz show ?thesis
      by (simp add: normalizeScoresChecked_def normalizeScores_def keys_def expLoopChecked_eq)
  qed
qed

lemma PredictChecked_returns:
  "\<exists>probs. PredictChecked U nb classOrder scoreOrder divideOrder text
      = Inr (fst (Predict U nb classOrder scoreOrder text), Some probs)"
proof -
  obtain scores bestLabel bestScore where
    s: "scoreClasses nb (tokenize U text) (float64_of_int (int (fcard (vocabulary nb)))) classOrder
          (Map.empty, [], NegInf) = (scores, bestLabel, bestScore)"
    using prod_cases3 by blast
  from normalizeScoresChecked_returns[of scoreOrder divideOrder scores bestScore] s show ?thesis
    by (auto simp: PredictChecked_def Predict_def Let_def scoreClassesChecked_eq)
qed

lemma PredictChecked_eq:
  assumes "rangeOrder (Some (snd (Predict U nb classOrder scoreOrder text))) divideOrder"
  shows "PredictChecked U nb classOrder scoreOrder divideOrder text
     = Inr (fst (Predict U nb classOrder scoreOrder text), Some (snd (Predict U nb classOrder scoreOrder text)))"
proof -
  obtain scores bestLabel bestScore where
    s: "scoreClasses nb (tokenize U text) (float64_of_int (int (fcard (vocabulary nb)))) classOrder
          (Map.empty, [], NegInf) = (scores, bestLabel, bestScore)"
    using prod_cases3 by blast
  with assms have "rangeOrder (Some (normalizeScores scoreOrder scores bestScore)) divideOrder"
    by (simp add: Predict_def Let_def)
  from normalizeScoresChecked_eq[OF this] s show ?thesis
    by (simp add: PredictChecked_def Predict_def Let_def scoreClassesChecked_eq)
qed

lemma evaluateLoopChecked_returns:
  "innerMapsPresent (Some confusion) \<Longrightarrow>
     \<exists>confusion' correct'. evaluateLoopChecked U nb orders i docs (Some confusion, correct)
         = Inr (Some confusion', correct') \<and> innerMapsPresent (Some confusion')"
proof (induction docs arbitrary: confusion correct i)
  case Nil
  then show ?case by simp
next
  case (Cons doc docs)
  let ?label = "Label doc"
  obtain probs where p: "PredictChecked U nb (fst (orders i)) (fst (snd (orders i))) (snd (snd (orders i))) (Text doc)
      = Inr (fst (Predict U nb (fst (orders i)) (fst (snd (orders i))) (Text doc)), Some probs)"
    using PredictChecked_returns by blast
  let ?predicted = "fst (Predict U nb (fst (orders i)) (fst (snd (orders i))) (Text doc))"
  let ?correct = "if ?predicted = ?label then goInc correct else correct"
  let ?confusion1 = "(case confusion ?label of None \<Rightarrow> confusion(?label \<mapsto> Some Map.empty) | Some _ \<Rightarrow> confusion)"
  have c1: "(if entryAt (Some confusion) ?label = None
             then storeAt (Some confusion) ?label (Some Map.empty) else Inr (Some confusion))
          = Inr (Some ?confusion1)"
    by (cases "confusion ?label") (simp_all add: entryAt_Some storeAt_Some)
  have pres1: "innerMapsPresent (Some ?confusion1)"
    using Cons.prems by (cases "confusion ?label") (simp_all add: innerMapsPresent_def)
  obtain row where r: "?confusion1 ?label = Some (Some row)"
  proof (cases "confusion ?label")
    case None
    then show ?thesis using that by simp
  next
    case (Some x)
    from innerMapsPresent_at[OF Cons.prems Some] obtain row where "x = Some row"
      by (cases x) auto
    with Some that show ?thesis by simp
  qed
  let ?row' = "Some (row(?predicted \<mapsto> goInc (intAt (Some row) ?predicted)))"
  let ?confusion2 = "?confusion1(?label \<mapsto> ?row')"
  have m: "mapAt (Some ?confusion1) ?label = Some row" using r by (simp add: mapAt_def)
  have i: "incrAt (mapAt (Some ?confusion1) ?label) ?predicted = Inr ?row'"
    unfolding m by (simp add: incrAt_def)
  have st: "storeAt (Some ?confusion1) ?label ?row' = Inr (Some ?confusion2)"
    by (rule storeAt_Some)
  have step: "evaluateLoopChecked U nb orders i (doc # docs) (Some confusion, correct)
      = evaluateLoopChecked U nb orders (Suc i) docs (Some ?confusion2, ?correct)"
    by (simp only: evaluateLoopChecked.simps p c1 i st sum.case prod.case Let_def)
  have "innerMapsPresent (Some ?confusion2)"
    using pres1 by (simp add: innerMapsPresent_def)
  from Cons.IH[OF this, of "Suc i" ?correct] show ?case unfolding step .
qed

lemma EvaluateChecked_returns:
  "\<exists>correct confusion. EvaluateChecked U nb orders docs = Inr (int (length docs), correct, Some confusion)"
proof -
  have "innerMapsPresent (Some (Map.empty :: 'a list \<rightharpoonup> 'a list intMap))"
    by (simp add: innerMapsPresent_def)
  from evaluateLoopChecked_returns[OF this, of U nb orders 0 docs 0] show ?thesis
    by (auto simp: EvaluateChecked_def)
qed

text \<open>
  For a slice of documents (at most \<open>maxInt\<close> of them) the loop of \<open>Evaluate\<close> with its map
  writes and wrapping counters computes what \<open>evaluateLoop\<close> computes.
\<close>

lemma lift_upd:
  "(\<lambda>a. map_option Some (confusion a))(label \<mapsto> Some row)
     = (\<lambda>a. map_option Some ((confusion(label \<mapsto> row)) a))"
  by (rule ext) simp

lemma evaluateLoopChecked_eq:
  assumes "0 \<le> k" and "correct \<le> k"
    and "\<forall>a row p v. confusion a = Some row \<longrightarrow> row p = Some v \<longrightarrow> v \<le> k"
    and "k + int (length docs) \<le> maxInt"
  shows "evaluateLoopChecked U nb orders i docs (Some (\<lambda>a. map_option Some (confusion a)), correct)
     = (case evaluateLoop U nb (\<lambda>j. (fst (orders j), fst (snd (orders j)))) i docs (confusion, correct) of
          (confusion', correct') \<Rightarrow> Inr (Some (\<lambda>a. map_option Some (confusion' a)), correct'))"
  using assms
proof (induction docs arbitrary: confusion correct i k)
  case Nil
  show ?case by simp
next
  case (Cons doc docs)
  let ?orders = "\<lambda>j. (fst (orders j), fst (snd (orders j)))"
  let ?label = "Label doc"
  let ?predicted = "fst (Predict U nb (fst (orders i)) (fst (snd (orders i))) (Text doc))"
  let ?lift = "\<lambda>c. Some (\<lambda>a. map_option Some (c a))"
  define row where "row = (case confusion ?label of None \<Rightarrow> Map.empty | Some r \<Rightarrow> r)"
  define v0 where "v0 = (case row ?predicted of None \<Rightarrow> 0 | Some v \<Rightarrow> v)"
  define row' where "row' = row(?predicted \<mapsto> v0 + 1)"
  define correct' where "correct' = (if ?predicted = ?label then correct + 1 else correct)"
  define confusion1 where
    "confusion1 = (case confusion ?label of None \<Rightarrow> confusion(?label \<mapsto> Map.empty) | Some _ \<Rightarrow> confusion)"
  from Cons.prems(4) Cons.prems(1) have k: "k < maxInt" and k': "(k + 1) + int (length docs) \<le> maxInt"
    by simp_all
  have v0: "v0 \<le> k"
  proof (cases "row ?predicted")
    case None
    then show ?thesis using Cons.prems(1) by (simp add: v0_def)
  next
    case (Some v)
    then have "confusion ?label = Some row" by (cases "confusion ?label") (simp_all add: row_def)
    with Cons.prems(3) Some have "v \<le> k" by blast
    with Some show ?thesis by (simp add: v0_def)
  qed
  obtain probs where p: "PredictChecked U nb (fst (orders i)) (fst (snd (orders i))) (snd (snd (orders i))) (Text doc)
      = Inr (?predicted, Some probs)"
    using PredictChecked_returns by blast
  have c1: "(if entryAt (?lift confusion) ?label = None
             then storeAt (?lift confusion) ?label (Some Map.empty) else Inr (?lift confusion))
          = Inr (?lift confusion1)"
    by (cases "confusion ?label") (simp_all add: entryAt_Some storeAt_Some lift_upd confusion1_def)
  have m: "mapAt (?lift confusion1) ?label = Some row"
    by (cases "confusion ?label") (simp_all add: mapAt_def row_def confusion1_def)
  have "intAt (Some row) ?predicted = v0" by (simp add: intAt_def v0_def)
  moreover have "goInc v0 = v0 + 1" using v0 k by (intro goInc_below) simp
  ultimately have inc: "incrAt (Some row) ?predicted = Inr (Some row')"
    by (simp add: incrAt_def row'_def)
  have "confusion1(?label \<mapsto> row') = confusion(?label \<mapsto> row')"
    by (cases "confusion ?label") (simp_all add: confusion1_def)
  then have st: "storeAt (?lift confusion1) ?label (Some row') = Inr (?lift (confusion(?label \<mapsto> row')))"
    by (simp add: storeAt_Some lift_upd)
  have "goInc correct = correct + 1" using Cons.prems(2) k by (intro goInc_below) simp
  then have cor: "(if ?predicted = ?label then goInc correct else correct) = correct'"
    by (simp add: correct'_def)
  have step: "evaluateLoopChecked U nb orders i (doc # docs) (?lift confusion, correct)
      = evaluateLoopChecked U nb orders (Suc i) docs (?lift (confusion(?label \<mapsto> row')), correct')"
    by (simp only: evaluateLoopChecked.simps p c1 m inc st cor sum.case prod.case Let_def)
  have step2: "evaluateLoop U nb ?orders i (doc # docs) (confusion, correct)
      = evaluateLoop U nb ?orders (Suc i) docs (confusion(?label \<mapsto> row'), correct')"
    by (simp add: Let_def row_def v0_def row'_def correct'_def)
  have b1: "0 \<le> k + 1" using Cons.prems(1) by simp
  have b2: "correct' \<le> k + 1" using Cons.prems(2) by (simp add: correct'_def)
  have b3: "\<forall>a r p v. (confusion(?label \<mapsto> row')) a = Some r \<longrightarrow> r p = Some v \<longrightarrow> v \<le> k + 1"
  proof (intro allI impI)
    fix a r p v
    assume a: "(confusion(?label \<mapsto> row')) a = Some r" and r: "r p = Some v"
    show "v \<le> k + 1"
    proof (cases "a = ?label")
      case True
      with a have rr: "r = row'" by simp
      show ?thesis
      proof (cases "p = ?predicted")
        case True
        with r rr v0 show ?thesis by (simp add: row'_def)
      next
        case False
        with r rr have rp: "row p = Some v" by (simp add: row'_def)
        then have "confusion ?label = Some row" by (cases "confusion ?label") (simp_all add: row_def)
        with Cons.prems(3) rp have "v \<le> k" by blast
        then show ?thesis by simp
      qed
    next
      case False
      with a have "confusion a = Some r" by simp
      with Cons.prems(3) r have "v \<le> k" by blast
      then show ?thesis by simp
    qed
  qed
  show ?case unfolding step step2 by (rule Cons.IH[OF b1 b2 b3 k'])
qed

lemma EvaluateChecked_eq:
  assumes "int (length docs) \<le> maxInt"
  shows "EvaluateChecked U nb orders docs
     = Inr (Total (Evaluate U nb (\<lambda>j. (fst (orders j), fst (snd (orders j)))) docs),
            Correct (Evaluate U nb (\<lambda>j. (fst (orders j), fst (snd (orders j)))) docs),
            Some (\<lambda>a. map_option Some
                   (Confusion (Evaluate U nb (\<lambda>j. (fst (orders j), fst (snd (orders j)))) docs) a)))"
proof -
  have e: "(Some Map.empty :: 'a list nestedMap) = Some (\<lambda>a. map_option Some (Map.empty a))" by simp
  have "evaluateLoopChecked U nb orders 0 docs (Some (\<lambda>a. map_option Some (Map.empty a)), 0)
     = (case evaluateLoop U nb (\<lambda>j. (fst (orders j), fst (snd (orders j)))) 0 docs (Map.empty, 0) of
          (confusion', correct') \<Rightarrow> Inr (Some (\<lambda>a. map_option Some (confusion' a)), correct'))"
    using assms by (intro evaluateLoopChecked_eq[where k = 0]) simp_all
  then show ?thesis
    unfolding EvaluateChecked_def Evaluate_def e by (simp split: prod.split)
qed

lemma copyLoop_eq:
  "copyLoop src ks (Some dst) = Inr (Some (\<lambda>k. if k \<in> set ks \<and> src k \<noteq> None then src k else dst k))"
proof (induction ks arbitrary: dst)
  case Nil
  show ?case by simp
next
  case (Cons k ks)
  show ?case
  proof (cases "src k")
    case None
    have eq: "(\<lambda>j. if j \<in> set ks \<and> src j \<noteq> None then src j else dst j)
        = (\<lambda>j. if j \<in> set (k # ks) \<and> src j \<noteq> None then src j else dst j)"
      using None by (auto simp: fun_eq_iff)
    have "copyLoop src (k # ks) (Some dst) = copyLoop src ks (Some dst)" using None by simp
    also have "\<dots> = Inr (Some (\<lambda>j. if j \<in> set ks \<and> src j \<noteq> None then src j else dst j))"
      by (rule Cons.IH)
    finally show ?thesis unfolding eq .
  next
    case (Some v)
    define d' where "d' = dst(k \<mapsto> v)"
    have eq: "(\<lambda>j. if j \<in> set ks \<and> src j \<noteq> None then src j else d' j)
        = (\<lambda>j. if j \<in> set (k # ks) \<and> src j \<noteq> None then src j else dst j)"
      using Some by (auto simp: fun_eq_iff d'_def)
    have "copyLoop src (k # ks) (Some dst) = copyLoop src ks (Some d')"
      using Some by (simp add: storeAt_Some d'_def)
    also have "\<dots> = Inr (Some (\<lambda>j. if j \<in> set ks \<and> src j \<noteq> None then src j else d' j))"
      by (rule Cons.IH)
    finally show ?thesis unfolding eq .
  qed
qed

lemma copyIntMapChecked_returns:
  "\<exists>m. copyIntMapChecked ks src = Inr m \<and> (m = None) = (src = None)"
  by (cases src) (simp_all add: copyIntMapChecked_def copyLoop_eq)

lemma copyIntMapChecked_eq:
  assumes "keys src \<subseteq> set ks"
  shows "copyIntMapChecked ks src = Inr (copyIntMap src)"
proof (cases src)
  case None
  then show ?thesis by (simp add: copyIntMapChecked_def copyIntMap_def)
next
  case (Some f)
  with assms have "dom f \<subseteq> set ks" by (simp add: keys_def)
  then have out: "\<And>k. k \<notin> set ks \<Longrightarrow> f k = None" by (meson domIff subsetD)
  have "(\<lambda>k. if k \<in> set ks \<and> f k \<noteq> None then f k else None) = f"
  proof (rule ext)
    fix k
    show "(if k \<in> set ks \<and> f k \<noteq> None then f k else None) = f k"
      using out[of k] by (cases "f k") auto
  qed
  with Some show ?thesis by (simp add: copyIntMapChecked_def copyLoop_eq copyIntMap_id)
qed

lemma copyNestedLoop_returns:
  "innerMapsPresent (Some dst) \<or> \<not> innerMapsPresent (Some src) \<Longrightarrow>
   \<exists>dst'. copyNestedLoop src innerKeys ks (Some dst) = Inr (Some dst')
      \<and> (innerMapsPresent (Some src) \<longrightarrow> innerMapsPresent (Some dst'))"
proof (induction ks arbitrary: dst)
  case Nil
  then show ?case by auto
next
  case (Cons k ks)
  show ?case
  proof (cases "src k")
    case None
    with Cons show ?thesis by simp
  next
    case (Some inner)
    obtain copied where c: "copyIntMapChecked (innerKeys k) inner = Inr copied"
      and n: "(copied = None) = (inner = None)"
      using copyIntMapChecked_returns by blast
    have "innerMapsPresent (Some (dst(k \<mapsto> copied))) \<or> \<not> innerMapsPresent (Some src)"
    proof (cases "innerMapsPresent (Some src)")
      case True
      from innerMapsPresent_at[OF True Some] have "inner \<noteq> None" .
      with n have "copied \<noteq> None" by simp
      moreover from True Cons.prems have "innerMapsPresent (Some dst)" by simp
      ultimately show ?thesis by (simp add: innerMapsPresent_def)
    next
      case False
      then show ?thesis by simp
    qed
    note ih = Cons.IH[OF this]
    have "copyNestedLoop src innerKeys (k # ks) (Some dst)
        = copyNestedLoop src innerKeys ks (Some (dst(k \<mapsto> copied)))"
      using Some c by (simp add: storeAt_Some)
    with ih show ?thesis by (simp only:)
  qed
qed

lemma copyNestedMapChecked_returns:
  "\<exists>m. copyNestedMapChecked ks innerKeys src = Inr m \<and> (innerMapsPresent src \<longrightarrow> innerMapsPresent m)"
proof (cases src)
  case None
  then show ?thesis by (simp add: copyNestedMapChecked_def)
next
  case (Some f)
  have "innerMapsPresent (Some (Map.empty :: 'a \<rightharpoonup> 'a intMap)) \<or> \<not> innerMapsPresent (Some f)"
    by (simp add: innerMapsPresent_def)
  from copyNestedLoop_returns[OF this, of innerKeys ks] Some show ?thesis
    by (auto simp: copyNestedMapChecked_def)
qed

lemma copyNestedLoop_eq:
  assumes "\<And>k inner. src k = Some inner \<Longrightarrow> keys inner \<subseteq> set (innerKeys k)"
  shows "copyNestedLoop src innerKeys ks (Some dst)
     = Inr (Some (\<lambda>k. if k \<in> set ks \<and> src k \<noteq> None then src k else dst k))"
proof (induction ks arbitrary: dst)
  case Nil
  show ?case by simp
next
  case (Cons k ks)
  show ?case
  proof (cases "src k")
    case None
    have eq: "(\<lambda>j. if j \<in> set ks \<and> src j \<noteq> None then src j else dst j)
        = (\<lambda>j. if j \<in> set (k # ks) \<and> src j \<noteq> None then src j else dst j)"
      using None by (auto simp: fun_eq_iff)
    have "copyNestedLoop src innerKeys (k # ks) (Some dst) = copyNestedLoop src innerKeys ks (Some dst)"
      using None by simp
    also have "\<dots> = Inr (Some (\<lambda>j. if j \<in> set ks \<and> src j \<noteq> None then src j else dst j))"
      by (rule Cons.IH)
    finally show ?thesis unfolding eq .
  next
    case (Some inner)
    from assms[OF Some] have c: "copyIntMapChecked (innerKeys k) inner = Inr inner"
      by (simp add: copyIntMapChecked_eq copyIntMap_id)
    define d' where "d' = dst(k \<mapsto> inner)"
    have eq: "(\<lambda>j. if j \<in> set ks \<and> src j \<noteq> None then src j else d' j)
        = (\<lambda>j. if j \<in> set (k # ks) \<and> src j \<noteq> None then src j else dst j)"
      using Some by (auto simp: fun_eq_iff d'_def)
    have "copyNestedLoop src innerKeys (k # ks) (Some dst) = copyNestedLoop src innerKeys ks (Some d')"
      using Some c by (simp add: storeAt_Some d'_def)
    also have "\<dots> = Inr (Some (\<lambda>j. if j \<in> set ks \<and> src j \<noteq> None then src j else d' j))"
      by (rule Cons.IH)
    finally show ?thesis unfolding eq .
  qed
qed

lemma copyNestedMapChecked_eq:
  assumes "keys src \<subseteq> set ks" and "\<And>k. keys (mapAt src k) \<subseteq> set (innerKeys k)"
  shows "copyNestedMapChecked ks innerKeys src = Inr (copyNestedMap src)"
proof (cases src)
  case None
  then show ?thesis by (simp add: copyNestedMapChecked_def copyNestedMap_def)
next
  case (Some f)
  with assms(1) have "dom f \<subseteq> set ks" by (simp add: keys_def)
  then have out: "\<And>k. k \<notin> set ks \<Longrightarrow> f k = None" by (meson domIff subsetD)
  have f: "(\<lambda>k. if k \<in> set ks \<and> f k \<noteq> None then f k else None) = f"
  proof (rule ext)
    fix k
    show "(if k \<in> set ks \<and> f k \<noteq> None then f k else None) = f k"
      using out[of k] by (cases "f k") auto
  qed
  have "keys inner \<subseteq> set (innerKeys k)" if "f k = Some inner" for k inner
    using assms(2)[of k] Some that by (simp add: mapAt_def)
  from copyNestedLoop_eq[of f innerKeys ks Map.empty, OF this] f Some show ?thesis
    by (simp add: copyNestedMapChecked_def copyNestedMap_id)
qed

text \<open>Iteration orders that visit every key of the maps of a classifier, or of a snapshot.\<close>

lemma SnapshotChecked_eq:
  assumes "keys (classDocCounts nb) \<subseteq> set (docKeys order)"
    and "keys (classWordCounts nb) \<subseteq> set (classKeys order)"
    and "\<And>k. keys (mapAt (classWordCounts nb) k) \<subseteq> set (wordKeys order k)"
    and "keys (classTotalWords nb) \<subseteq> set (totalKeys order)"
  shows "SnapshotChecked order nb = Inr (Snapshot nb)"
  using assms
  by (simp add: SnapshotChecked_def Snapshot_def copyIntMapChecked_eq copyNestedMapChecked_eq)

lemma LoadSnapshotChecked_eq:
  assumes "keys (ClassDocCounts snapshot) \<subseteq> set (docKeys order)"
    and "keys (ClassWordCounts snapshot) \<subseteq> set (classKeys order)"
    and "\<And>k. keys (mapAt (ClassWordCounts snapshot) k) \<subseteq> set (wordKeys order k)"
    and "keys (ClassTotalWords snapshot) \<subseteq> set (totalKeys order)"
  shows "LoadSnapshotChecked order nb snapshot = Inr (LoadSnapshot nb snapshot)"
  using assms
  by (simp add: LoadSnapshotChecked_def LoadSnapshot_def copyIntMapChecked_eq copyNestedMapChecked_eq)

lemma SnapshotChecked_returns: "\<exists>snapshot. SnapshotChecked order nb = Inr snapshot"
proof -
  obtain a where a: "copyIntMapChecked (docKeys order) (classDocCounts nb) = Inr a"
    using copyIntMapChecked_returns by blast
  obtain b where b: "copyNestedMapChecked (classKeys order) (wordKeys order) (classWordCounts nb) = Inr b"
    using copyNestedMapChecked_returns by blast
  obtain c where c: "copyIntMapChecked (totalKeys order) (classTotalWords nb) = Inr c"
    using copyIntMapChecked_returns by blast
  from a b c show ?thesis by (simp add: SnapshotChecked_def)
qed

lemma LoadSnapshotChecked_returns:
  "\<exists>nb'. LoadSnapshotChecked order nb snapshot = Inr nb' \<and> (snapshotNoNilMaps snapshot \<longrightarrow> noNilMaps nb')"
proof -
  obtain a where a: "copyIntMapChecked (docKeys order) (ClassDocCounts snapshot) = Inr a"
    and a': "(a = None) = (ClassDocCounts snapshot = None)"
    using copyIntMapChecked_returns by blast
  obtain b where b: "copyNestedMapChecked (classKeys order) (wordKeys order) (ClassWordCounts snapshot) = Inr b"
    and b': "innerMapsPresent (ClassWordCounts snapshot) \<longrightarrow> innerMapsPresent b"
    using copyNestedMapChecked_returns by blast
  obtain c where c: "copyIntMapChecked (totalKeys order) (ClassTotalWords snapshot) = Inr c"
    and c': "(c = None) = (ClassTotalWords snapshot = None)"
    using copyIntMapChecked_returns by blast
  from a b c a' b' c' show ?thesis
    by (auto simp: LoadSnapshotChecked_def snapshotNoNilMaps_def noNilMaps_def)
qed

subsection \<open>Sequences of calls\<close>

lemma exec_ok:
  "noNilMaps nb \<Longrightarrow> loadsNoNilMaps c \<Longrightarrow> \<exists>nb' r. exec U nb c = Inr (nb', r) \<and> noNilMaps nb'"
proof (cases c)
  case (CallTrain tx label)
  assume "noNilMaps nb"
  from Train_ok[OF this, of U tx label] CallTrain show ?thesis by auto
next
  case (CallTrainBatch docs)
  assume "noNilMaps nb"
  from TrainBatch_ok[OF this, of U docs] CallTrainBatch show ?thesis by auto
next
  case CallReset
  then show ?thesis by (simp add: noNilMaps_Reset)
next
  case (CallPredict tx classOrder scoreOrder divideOrder)
  assume "noNilMaps nb"
  with CallPredict PredictChecked_returns[of U nb classOrder scoreOrder divideOrder tx]
  show ?thesis by auto
next
  case (CallEvaluate docs orders)
  assume "noNilMaps nb"
  with CallEvaluate EvaluateChecked_returns[of U nb orders docs] show ?thesis by auto
next
  case (CallSnapshot order)
  assume "noNilMaps nb"
  with CallSnapshot SnapshotChecked_returns[of order nb] show ?thesis by auto
next
  case (CallLoadSnapshot s order)
  assume "loadsNoNilMaps c"
  with CallLoadSnapshot LoadSnapshotChecked_returns[of order nb s] show ?thesis by auto
qed

lemma run_ok:
  "noNilMaps nb \<Longrightarrow> \<forall>c \<in> set cs. loadsNoNilMaps c \<Longrightarrow>
     \<exists>nb' rs. run U nb cs = Inr (nb', rs) \<and> length rs = length cs \<and> noNilMaps nb'"
proof (induction cs arbitrary: nb)
  case Nil
  then show ?case by simp
next
  case (Cons c cs)
  from exec_ok[of nb c U] Cons.prems obtain nb1 r where
    e: "exec U nb c = Inr (nb1, r)" and n: "noNilMaps nb1" by auto
  from Cons.IH[OF n] Cons.prems(2) obtain nb2 rs where
    "run U nb1 cs = Inr (nb2, rs)" "length rs = length cs" "noNilMaps nb2" by auto
  with e show ?case by simp
qed

lemma exec_reader_ok: "\<not> isTraining c \<Longrightarrow> \<exists>nb' r. exec U nb c = Inr (nb', r)"
proof (cases c)
  case (CallPredict tx classOrder scoreOrder divideOrder)
  with PredictChecked_returns[of U nb classOrder scoreOrder divideOrder tx] show ?thesis by auto
next
  case (CallEvaluate docs orders)
  with EvaluateChecked_returns[of U nb orders docs] show ?thesis by auto
next
  case (CallSnapshot order)
  with SnapshotChecked_returns[of order nb] show ?thesis by auto
next
  case (CallLoadSnapshot s order)
  with LoadSnapshotChecked_returns[of order nb s] show ?thesis by auto
qed simp_all


section \<open>The invariants of the counts\<close>

lemma keys_Some: "keys (Some f) = dom f"
  by (simp add: keys_def)

lemma keys_None: "keys None = {}"
  by (simp add: keys_def)

lemma valuesSum_None: "valuesSum None = 0"
  by (simp add: valuesSum_def keys_def)

lemma valuesSum_empty: "valuesSum (Some Map.empty) = 0"
  by (simp add: valuesSum_def keys_def)

lemma intAt_None: "intAt None k = 0"
  by (simp add: intAt_def)

lemma valuesSum_upd:
  assumes fin: "finite (dom f)"
  shows "valuesSum (Some (f(k \<mapsto> v))) = valuesSum (Some f) - intAt (Some f) k + v"
proof -
  have rest: "(\<Sum>j \<in> dom f - {k}. intAt (Some (f(k \<mapsto> v))) j) = (\<Sum>j \<in> dom f - {k}. intAt (Some f) j)"
    by (rule sum.cong) (auto simp: intAt_def)
  have new: "valuesSum (Some (f(k \<mapsto> v))) = v + (\<Sum>j \<in> dom f - {k}. intAt (Some f) j)"
    using fin rest by (simp add: valuesSum_def keys_def sum.insert_remove intAt_def)
  have old: "valuesSum (Some f) = intAt (Some f) k + (\<Sum>j \<in> dom f - {k}. intAt (Some f) j)"
  proof (cases "k \<in> dom f")
    case True
    with fin show ?thesis by (simp add: valuesSum_def keys_def sum.remove)
  next
    case False
    then have none: "f k = None" by auto
    then have "dom f - {k} = dom f" by auto
    moreover have "intAt (Some f) k = 0" using none by (simp add: intAt_def)
    ultimately show ?thesis by (simp add: valuesSum_def keys_def)
  qed
  from new old show ?thesis by simp
qed

lemma incrAt_sum:
  assumes "incrAt m k = Inr m'" and "finite (keys m)" and below: "intAt m k < maxInt"
  shows "valuesSum m' = valuesSum m + 1" and "keys m' = insert k (keys m)"
proof -
  from incrAt_Inr[OF assms(1)] obtain f where m: "m = Some f"
    and m': "m' = Some (f(k \<mapsto> goInc (intAt m k)))" by blast
  from assms(2) m have fin: "finite (dom f)" by (simp add: keys_def)
  show "valuesSum m' = valuesSum m + 1"
    using valuesSum_upd[OF fin, of k "goInc (intAt m k)"] m m' goInc_below[OF below] by simp
  show "keys m' = insert k (keys m)" using m m' by (simp add: keys_def)
qed

lemma valuesSum_nonneg: "(\<And>k. 0 \<le> intAt m k) \<Longrightarrow> 0 \<le> valuesSum m"
  unfolding valuesSum_def by (rule sum_nonneg) simp

lemma valuesSum_member:
  assumes "finite (keys m)" and "\<And>k. 0 \<le> intAt m k"
  shows "intAt m C \<le> valuesSum m"
proof (cases "C \<in> keys m")
  case True
  have "intAt m C \<le> (\<Sum>k \<in> keys m. intAt m k)"
    using assms True by (intro member_le_sum) simp_all
  then show ?thesis by (simp add: valuesSum_def)
next
  case False
  then have "intAt m C = 0" by (auto simp: keys_def intAt_def split: option.splits)
  with valuesSum_nonneg[of m] assms(2) show ?thesis by simp
qed

lemma modelInvariants_split: "modelInvariants nb = (docInvariant nb \<and> wordInvariant nb)"
  by (auto simp: modelInvariants_def docInvariant_def wordInvariant_def)

lemma UN_insert_at:
  "label \<in> A \<Longrightarrow> g label = S \<Longrightarrow>
     (\<Union>L \<in> A. (if L = label then insert token S else g L)) = insert token (\<Union>L \<in> A. g L)"
  by (auto split: if_splits)

lemma UN_skip_at:
  "g' label = {} \<Longrightarrow> (\<And>L. L \<in> A \<Longrightarrow> g' L = g L) \<Longrightarrow>
     (\<Union>L \<in> insert label A. g' L) = (\<Union>L \<in> A. g L)"
  by auto

lemma mapAt_upd: "mapAt (Some (outer(label \<mapsto> x))) L = (if L = label then x else mapAt (Some outer) L)"
  by (simp add: mapAt_def)

lemma trainTokens_invariants:
  "wordInvariant nb \<Longrightarrow> countsNonneg nb \<Longrightarrow> trainTokens nb label toks = Inr nb' \<Longrightarrow>
   mapAt (classWordCounts nb) label \<noteq> None \<Longrightarrow>
   intAt (classTotalWords nb) label + int (length toks) \<le> maxInt \<Longrightarrow>
   wordInvariant nb' \<and> countsNonneg nb'"
proof (induction toks arbitrary: nb)
  case Nil
  then show ?case by simp
next
  case (Cons token rest)
  show ?case
  proof (cases "token = []")
    case True
    with Cons.prems have "trainTokens nb label rest = Inr nb'"
      and "intAt (classTotalWords nb) label + int (length rest) \<le> maxInt" by simp_all
    with Cons.IH[of nb] Cons.prems show ?thesis by blast
  next
    case False
    from Cons.prems(4) obtain outer inner where
      o: "classWordCounts nb = Some outer" and i: "outer label = Some (Some inner)"
      by (auto simp: mapAt_def split: option.splits)
    from Cons.prems(3) False o i obtain totals where t: "classTotalWords nb = Some totals"
      by (cases "classTotalWords nb") (auto simp: Let_def mapAt_def incrAt_def)
    have at: "mapAt (Some outer) label = Some inner" using i by (simp add: mapAt_def)
    from Cons.prems(1) o t at have fin: "finite (dom inner)"
      and tot: "intAt (Some totals) label = valuesSum (Some inner)"
      and others: "\<And>L. finite (keys (mapAt (Some outer) L))
                     \<and> intAt (Some totals) L = valuesSum (mapAt (Some outer) L)"
      and voc: "fset (vocabulary nb) = (\<Union>L \<in> dom outer. keys (mapAt (Some outer) L))"
      by (auto simp: wordInvariant_def keys_def dest: spec[of _ label])
    from Cons.prems(2) o at have nn: "\<And>t. 0 \<le> intAt (Some inner) t"
      by (auto simp: countsNonneg_def dest: spec[of _ label])
    from Cons.prems(5) t have room: "intAt (Some totals) label + 1 + int (length rest) \<le> maxInt"
      by simp
    then have below_t: "intAt (Some totals) label < maxInt" by simp
    have "intAt (Some inner) token \<le> valuesSum (Some inner)"
      using fin nn by (intro valuesSum_member) (simp_all add: keys_Some)
    with tot below_t have below_i: "intAt (Some inner) token < maxInt" by simp
    let ?inner' = "inner(token \<mapsto> intAt (Some inner) token + 1)"
    let ?totals' = "totals(label \<mapsto> intAt (Some totals) label + 1)"
    let ?nb3 = "nb\<lparr>vocabulary := finsert token (vocabulary nb),
                    classWordCounts := Some (outer(label \<mapsto> Some ?inner')),
                    classTotalWords := Some ?totals'\<rparr>"
    have step: "trainTokens nb label (token # rest) = trainTokens ?nb3 label rest"
      using False o i t goInc_below[OF below_i] goInc_below[OF below_t]
      by (simp add: Let_def mapAt_def incrAt_def)
    have sum': "valuesSum (Some ?inner') = valuesSum (Some inner) + 1"
      using valuesSum_upd[OF fin, of token "intAt (Some inner) token + 1"] by simp
    have lab: "label \<in> dom outer" using i by auto
    have "wordInvariant ?nb3"
      unfolding wordInvariant_def
    proof (intro conjI allI)
      fix L
      show "finite (keys (mapAt (classWordCounts ?nb3) L))"
        using fin others[of L] by (simp add: mapAt_upd keys_Some)
      show "intAt (classTotalWords ?nb3) L = valuesSum (mapAt (classWordCounts ?nb3) L)"
      proof (cases "L = label")
        case True
        then show ?thesis using tot sum' by (simp add: mapAt_upd intAt_def)
      next
        case False
        then show ?thesis using others[of L] by (simp add: mapAt_upd intAt_def)
      qed
    next
      have "(\<Union>L \<in> keys (classWordCounts ?nb3). keys (mapAt (classWordCounts ?nb3) L))
          = (\<Union>L \<in> dom outer. keys (if L = label then Some ?inner' else mapAt (Some outer) L))"
        using lab by (simp add: keys_Some mapAt_upd insert_absorb)
      also have "\<dots> = (\<Union>L \<in> dom outer. (if L = label then insert token (dom inner) else keys (mapAt (Some outer) L)))"
        by (rule SUP_cong) (simp_all add: keys_Some)
      also have "\<dots> = insert token (\<Union>L \<in> dom outer. keys (mapAt (Some outer) L))"
        using lab at by (intro UN_insert_at) (simp_all add: keys_Some)
      finally show "fset (vocabulary ?nb3)
          = (\<Union>L \<in> keys (classWordCounts ?nb3). keys (mapAt (classWordCounts ?nb3) L))"
        using voc by simp
    qed
    moreover have "countsNonneg ?nb3"
      unfolding countsNonneg_def
    proof (intro allI)
      fix L t
      show "0 \<le> intAt (mapAt (classWordCounts ?nb3) L) t"
      proof (cases "L = label")
        case True
        then show ?thesis using nn[of t] nn[of token] by (simp add: mapAt_upd intAt_def)
      next
        case False
        then show ?thesis using Cons.prems(2) o by (simp add: mapAt_upd countsNonneg_def)
      qed
    qed
    moreover have "mapAt (classWordCounts ?nb3) label \<noteq> None" by (simp add: mapAt_def)
    moreover have "trainTokens ?nb3 label rest = Inr nb'" using Cons.prems(3) step by simp
    moreover have "intAt (classTotalWords ?nb3) label + int (length rest) \<le> maxInt"
      using room by (simp add: intAt_def)
    ultimately show ?thesis using Cons.IH[of ?nb3] by blast
  qed
qed


lemma Train_unfold:
  assumes "Train U nb text label = Inr nb'"
  obtains counts outer where
    "incrAt (classDocCounts nb) label = Inr counts"
    "classWordCounts nb = Some outer"
    "trainTokens
       (case outer label of
          None \<Rightarrow> nb\<lparr>totalDocs := goInc (totalDocs nb), classDocCounts := counts,
                       classWordCounts := Some (outer(label \<mapsto> Some Map.empty))\<rparr>
        | Some _ \<Rightarrow> nb\<lparr>totalDocs := goInc (totalDocs nb), classDocCounts := counts\<rparr>)
       label (tokenize U text) = Inr nb'"
proof -
  from assms obtain counts where c: "incrAt (classDocCounts nb) label = Inr counts"
    by (cases "incrAt (classDocCounts nb) label") (simp_all add: Train_def Let_def)
  from assms c obtain outer where o: "classWordCounts nb = Some outer"
    by (cases "classWordCounts nb") (simp_all add: Train_def Let_def)
  from assms c o have "trainTokens
       (case outer label of
          None \<Rightarrow> nb\<lparr>totalDocs := goInc (totalDocs nb), classDocCounts := counts,
                       classWordCounts := Some (outer(label \<mapsto> Some Map.empty))\<rparr>
        | Some _ \<Rightarrow> nb\<lparr>totalDocs := goInc (totalDocs nb), classDocCounts := counts\<rparr>)
       label (tokenize U text) = Inr nb'"
    by (simp add: Train_def Let_def)
  with c o that show thesis by blast
qed

lemma Train_docInvariant:
  assumes inv: "docInvariant nb" and tr: "Train U nb text label = Inr nb'"
    and below: "totalDocs nb < maxInt"
  shows "docInvariant nb'"
proof -
  from tr obtain counts outer nb3 where c: "incrAt (classDocCounts nb) label = Inr counts"
    and tt: "trainTokens nb3 label (tokenize U text) = Inr nb'"
    and nb3: "totalDocs nb3 = goInc (totalDocs nb)" "classDocCounts nb3 = counts"
    by (rule Train_unfold) (auto split: option.splits)
  from trainTokens_frame[OF tt] nb3 goInc_below[OF below]
  have eq: "totalDocs nb' = totalDocs nb + 1" "classDocCounts nb' = counts"
    by auto
  from inv have fin: "finite (keys (classDocCounts nb))" and nonneg: "\<And>L. 0 \<le> intAt (classDocCounts nb) L"
    and tot: "totalDocs nb = valuesSum (classDocCounts nb)"
    by (auto simp: docInvariant_def)
  from valuesSum_member[OF fin nonneg, of label] tot below
  have below_c: "intAt (classDocCounts nb) label < maxInt" by simp
  from incrAt_sum[OF c fin below_c] have s: "valuesSum counts = valuesSum (classDocCounts nb) + 1"
    and k: "keys counts = insert label (keys (classDocCounts nb))" by auto
  have "\<And>L. 0 \<le> intAt counts L"
    using intAt_incrAt[OF c] nonneg goInc_below[OF below_c] by (simp add: add_nonneg_nonneg)
  with s k fin tot eq show ?thesis by (simp add: docInvariant_def)
qed

lemma Train_wordInvariant:
  assumes inv: "wordInvariant nb" and cnt: "countsNonneg nb"
    and pres: "innerMapsPresent (classWordCounts nb)"
    and tr: "Train U nb text label = Inr nb'"
    and room: "intAt (classTotalWords nb) label + int (length (tokenize U text)) \<le> maxInt"
  shows "wordInvariant nb' \<and> countsNonneg nb'"
proof -
  from tr obtain counts outer where o: "classWordCounts nb = Some outer"
    and tt: "trainTokens
       (case outer label of
          None \<Rightarrow> nb\<lparr>totalDocs := goInc (totalDocs nb), classDocCounts := counts,
                       classWordCounts := Some (outer(label \<mapsto> Some Map.empty))\<rparr>
        | Some _ \<Rightarrow> nb\<lparr>totalDocs := goInc (totalDocs nb), classDocCounts := counts\<rparr>)
       label (tokenize U text) = Inr nb'"
    by (rule Train_unfold)
  show ?thesis
  proof (cases "outer label")
    case None
    let ?nb3 = "nb\<lparr>totalDocs := goInc (totalDocs nb), classDocCounts := counts,
                    classWordCounts := Some (outer(label \<mapsto> Some Map.empty))\<rparr>"
    from inv o None have zero: "intAt (classTotalWords nb) label = 0"
      by (auto simp: wordInvariant_def mapAt_def valuesSum_None dest: spec[of _ label])
    have "wordInvariant ?nb3"
      unfolding wordInvariant_def
    proof (intro conjI allI)
      fix L
      show "finite (keys (mapAt (classWordCounts ?nb3) L))"
        using inv o by (auto simp: wordInvariant_def mapAt_upd keys_Some)
      show "intAt (classTotalWords ?nb3) L = valuesSum (mapAt (classWordCounts ?nb3) L)"
        using inv o zero by (auto simp: wordInvariant_def mapAt_upd valuesSum_empty)
    next
      have "(\<Union>L \<in> keys (classWordCounts ?nb3). keys (mapAt (classWordCounts ?nb3) L))
          = (\<Union>L \<in> insert label (dom outer). keys (mapAt (Some (outer(label \<mapsto> Some Map.empty))) L))"
        by (simp add: keys_Some)
      also have "\<dots> = (\<Union>L \<in> dom outer. keys (mapAt (Some outer) L))"
      proof (rule UN_skip_at)
        show "keys (mapAt (Some (outer(label \<mapsto> Some Map.empty))) label) = {}"
          by (simp add: mapAt_upd keys_Some)
      next
        fix L assume "L \<in> dom outer"
        with None have "L \<noteq> label" by auto
        then show "keys (mapAt (Some (outer(label \<mapsto> Some Map.empty))) L) = keys (mapAt (Some outer) L)"
          by (simp add: mapAt_upd)
      qed
      finally show "fset (vocabulary ?nb3)
          = (\<Union>L \<in> keys (classWordCounts ?nb3). keys (mapAt (classWordCounts ?nb3) L))"
        using inv o by (simp add: wordInvariant_def keys_Some)
    qed
    moreover have "countsNonneg ?nb3"
      using cnt o by (auto simp: countsNonneg_def mapAt_upd intAt_def)
    moreover have "mapAt (classWordCounts ?nb3) label \<noteq> None" by (simp add: mapAt_def)
    moreover have "trainTokens ?nb3 label (tokenize U text) = Inr nb'" using tt None by simp
    moreover have "intAt (classTotalWords ?nb3) label + int (length (tokenize U text)) \<le> maxInt"
      using room by simp
    ultimately show ?thesis
      using trainTokens_invariants[of ?nb3 label "tokenize U text" nb'] by blast
  next
    case (Some inner)
    let ?nb3 = "nb\<lparr>totalDocs := goInc (totalDocs nb), classDocCounts := counts\<rparr>"
    have "wordInvariant ?nb3" using inv by (simp add: wordInvariant_def)
    moreover have "countsNonneg ?nb3" using cnt by (simp add: countsNonneg_def)
    moreover have "inner \<noteq> None" using pres o Some innerMapsPresent_at[of outer label inner] by simp
    then have "mapAt (classWordCounts ?nb3) label \<noteq> None" using o Some by (simp add: mapAt_def)
    moreover have "trainTokens ?nb3 label (tokenize U text) = Inr nb'" using tt Some by simp
    moreover have "intAt (classTotalWords ?nb3) label + int (length (tokenize U text)) \<le> maxInt"
      using room by simp
    ultimately show ?thesis
      using trainTokens_invariants[of ?nb3 label "tokenize U text" nb'] by blast
  qed
qed

lemma trained_New: "trained NewNaiveBayesClassifier"
proof -
  have "docInvariant NewNaiveBayesClassifier \<and> wordInvariant NewNaiveBayesClassifier
      \<and> countsNonneg NewNaiveBayesClassifier"
    by (simp add: docInvariant_def wordInvariant_def countsNonneg_def
        NewNaiveBayesClassifier_def intAt_def keys_def valuesSum_def mapAt_def)
  with noNilMaps_New show ?thesis unfolding trained_def by blast
qed

lemma trained_Reset: "trained (Reset nb)"
proof -
  have "docInvariant (Reset nb) \<and> wordInvariant (Reset nb) \<and> countsNonneg (Reset nb)"
    by (simp add: docInvariant_def wordInvariant_def countsNonneg_def
        Reset_def intAt_def keys_def valuesSum_def mapAt_def)
  with noNilMaps_Reset show ?thesis unfolding trained_def by blast
qed

lemma trained_Train:
  assumes "trained nb" and fits: "trainFits U nb text label" and tr: "Train U nb text label = Inr nb'"
  shows "trained nb'"
proof -
  from assms(1) have n: "noNilMaps nb" and d: "docInvariant nb" and w: "wordInvariant nb"
    and c: "countsNonneg nb"
    by (simp_all add: trained_def)
  from fits have below: "totalDocs nb < maxInt"
    and room: "intAt (classTotalWords nb) label + int (length (tokenize U text)) \<le> maxInt"
    by (simp_all add: trainFits_def)
  from n have pres: "innerMapsPresent (classWordCounts nb)" by (simp add: noNilMaps_def)
  from Train_ok[OF n, of U "text" label] tr have "noNilMaps nb'" by simp
  moreover have "docInvariant nb'" by (rule Train_docInvariant[OF d tr below])
  moreover have "wordInvariant nb' \<and> countsNonneg nb'"
    by (rule Train_wordInvariant[OF w c pres tr room])
  ultimately show ?thesis by (simp add: trained_def)
qed

lemma trained_TrainBatch:
  "trained nb \<Longrightarrow> batchFits U nb docs \<Longrightarrow> TrainBatch U nb docs = Inr nb' \<Longrightarrow> trained nb'"
proof (induction docs arbitrary: nb)
  case Nil
  then show ?case by simp
next
  case (Cons doc docs)
  from Cons.prems(3) obtain nb1 where t: "Train U nb (Text doc) (Label doc) = Inr nb1"
    and b: "TrainBatch U nb1 docs = Inr nb'"
    by (cases "Train U nb (Text doc) (Label doc)") simp_all
  from Cons.prems(2) t have f: "trainFits U nb (Text doc) (Label doc)" and fb: "batchFits U nb1 docs"
    by simp_all
  from trained_Train[OF Cons.prems(1) f t] Cons.IH fb b show ?case by blast
qed

lemma reachable_trained: "reachable U nb \<Longrightarrow> trained nb"
proof (induction rule: reachable.induct)
  case reach_new
  show ?case by (rule trained_New)
next
  case (reach_train nb tx label nb')
  then show ?case by (blast intro: trained_Train)
next
  case (reach_batch nb docs nb')
  then show ?case by (blast intro: trained_TrainBatch)
next
  case (reach_reset nb)
  show ?case by (rule trained_Reset)
qed

subsection \<open>No counter wraps before \<open>2^63\<close> documents or tokens\<close>

lemma goInc_le: "goInc x \<le> x + 1"
  by (simp add: goInc_def maxInt_def minInt_def)

lemma trainTokens_totals_le:
  "trainTokens nb label toks = Inr nb' \<Longrightarrow>
     intAt (classTotalWords nb') L \<le> intAt (classTotalWords nb) L + int (length toks)"
proof (induction toks arbitrary: nb)
  case Nil
  then show ?case by simp
next
  case (Cons token rest)
  show ?case
  proof (cases "token = []")
    case True
    with Cons.prems have "trainTokens nb label rest = Inr nb'" by simp
    from Cons.IH[OF this] show ?thesis by simp
  next
    case False
    from Cons.prems False obtain inner outer totals where
      t: "incrAt (classTotalWords nb) label = Inr totals"
      and rec: "trainTokens (nb\<lparr>vocabulary := finsert token (vocabulary nb),
                             classWordCounts := Some (outer(label \<mapsto> inner)),
                             classTotalWords := totals\<rparr>) label rest = Inr nb'"
      by (auto simp: Let_def split: sum.splits option.splits)
    have "intAt totals L \<le> intAt (classTotalWords nb) L + 1"
      using intAt_incrAt[OF t, of L] goInc_le[of "intAt (classTotalWords nb) label"] by simp
    with Cons.IH[OF rec] show ?thesis by simp
  qed
qed

lemma Train_totals_le:
  assumes "Train U nb text label = Inr nb'"
  shows "intAt (classTotalWords nb') L \<le> intAt (classTotalWords nb) L + int (length (tokenize U text))"
proof -
  from assms obtain nb3 where tt: "trainTokens nb3 label (tokenize U text) = Inr nb'"
    and nb3: "classTotalWords nb3 = classTotalWords nb"
    by (rule Train_unfold) (auto split: option.splits)
  from trainTokens_totals_le[OF tt, of L] nb3 show ?thesis by simp
qed

lemma tokensIn_Cons:
  "tokensIn U (doc # docs) = int (length (tokenize U (Text doc))) + tokensIn U docs"
  by (simp add: tokensIn_def)

lemma tokensIn_nonneg: "0 \<le> tokensIn U docs"
  by (induction docs) (simp_all add: tokensIn_def)

text \<open>
  A batch fits when the documents trained so far and those of the batch are at most
  \<open>maxInt\<close> together, and so are the tokens: any batch of fewer than \<open>2^63\<close> documents and
  tokens can be trained from the empty classifier.
\<close>

lemma small_batches_fit:
  "trained nb \<Longrightarrow> totalDocs nb + int (length docs) \<le> maxInt \<Longrightarrow>
   \<forall>L. intAt (classTotalWords nb) L + tokensIn U docs \<le> maxInt \<Longrightarrow> batchFits U nb docs"
proof (induction docs arbitrary: nb)
  case Nil
  show ?case by simp
next
  case (Cons doc docs)
  let ?n = "int (length (tokenize U (Text doc)))"
  from Cons.prems(3) have room: "\<And>L. intAt (classTotalWords nb) L + ?n + tokensIn U docs \<le> maxInt"
    by (simp add: tokensIn_Cons add.assoc)
  have fits: "trainFits U nb (Text doc) (Label doc)"
    using Cons.prems(2) room[of "Label doc"] tokensIn_nonneg[of U docs] by (simp add: trainFits_def)
  have "batchFits U nb1 docs" if t: "Train U nb (Text doc) (Label doc) = Inr nb1" for nb1
  proof (rule Cons.IH)
    show "trained nb1" by (rule trained_Train[OF Cons.prems(1) fits t])
    show "totalDocs nb1 + int (length docs) \<le> maxInt"
      using Train_frame(1)[OF t] goInc_le[of "totalDocs nb"] Cons.prems(2) by simp
    show "\<forall>L. intAt (classTotalWords nb1) L + tokensIn U docs \<le> maxInt"
    proof
      fix L
      from Train_totals_le[OF t, of L] room[of L]
      show "intAt (classTotalWords nb1) L + tokensIn U docs \<le> maxInt" by simp
    qed
  qed
  with fits show ?case by (simp split: sum.split)
qed

lemma small_batch_reachable:
  assumes "int (length docs) \<le> maxInt" and "tokensIn U docs \<le> maxInt"
  shows "\<exists>nb. TrainBatch U NewNaiveBayesClassifier docs = Inr nb \<and> reachable U nb"
proof -
  have "batchFits U NewNaiveBayesClassifier docs"
    using assms by (intro small_batches_fit trained_New) (simp_all add: NewNaiveBayesClassifier_def intAt_def)
  moreover from TrainBatch_ok[OF noNilMaps_New, of U docs]
  obtain nb where "TrainBatch U NewNaiveBayesClassifier docs = Inr nb" by blast
  ultimately show ?thesis using reach_batch[OF reach_new] by blast
qed

lemma reachable_countsNonneg: "reachable U nb \<Longrightarrow> countsNonneg nb"
  using reachable_trained[of U nb] by (simp add: trained_def)


lemma trainFits_New:
  "int (length (tokenize U text)) \<le> maxInt \<Longrightarrow> trainFits U NewNaiveBayesClassifier text label"
  by (simp add: trainFits_def NewNaiveBayesClassifier_def intAt_def maxInt_def)

text \<open>
  C7. In every state reached from the empty classifier by \<open>Train\<close>, \<open>TrainBatch\<close>
  and \<open>Reset\<close>: \<open>classDocCounts[L] \<ge> 0\<close> for every label \<open>L\<close>, \<open>totalDocs\<close> is
  the sum of the values of \<open>classDocCounts\<close>, \<open>classTotalWords[L]\<close> is the sum of the
  values of \<open>classWordCounts[L]\<close> for every label \<open>L\<close> (all these maps are finite),
  and the vocabulary is the union of the key sets of the maps \<open>classWordCounts[L]\<close>.
  No map of such a state is \<open>nil\<close>, so the training calls that reach it do return.
  (The states are those reached before a counter wraps around at \<open>maxInt\<close>.)
\<close>

theorem reachable_states_satisfy_invariants:
  "reachable U nb \<Longrightarrow> modelInvariants nb \<and> noNilMaps nb"
  using reachable_trained[of U nb] by (simp add: trained_def modelInvariants_split)

theorem reachable_states_satisfy_invariants_witness:
  "\<exists>nb. Train ascii NewNaiveBayesClassifier ''Good film'' ''pos'' = Inr nb
      \<and> reachable ascii nb \<and> modelInvariants nb \<and> noNilMaps nb"
proof -
  from Train_ok[OF noNilMaps_New, of ascii "''Good film''" "''pos''"]
  obtain nb where t: "Train ascii NewNaiveBayesClassifier ''Good film'' ''pos'' = Inr nb" by blast
  have f: "trainFits ascii NewNaiveBayesClassifier ''Good film'' ''pos''"
    by (rule trainFits_New) (simp add: tok_good_film maxInt_def)
  have r: "reachable ascii nb" by (rule reach_train[OF reach_new f t])
  from reachable_states_satisfy_invariants[OF r] t r show ?thesis by blast
qed

section \<open>Training: the claims\<close>

lemma reachable_Train:
  assumes r: "reachable U nb" and below: "totalDocs nb < maxInt"
  shows "\<exists>nb1. Train U nb text label = Inr nb1 \<and> totalDocs nb1 = totalDocs nb + 1
           \<and> intAt (classDocCounts nb1) label = intAt (classDocCounts nb) label + 1
           \<and> vocabulary nb |\<subseteq>| vocabulary nb1"
proof -
  from reachable_trained[OF r] have n: "noNilMaps nb" and d: "docInvariant nb"
    by (simp_all add: trained_def)
  from Train_ok[OF n, of U "text" label] obtain nb1 where t: "Train U nb text label = Inr nb1"
    by blast
  from d have fin: "finite (keys (classDocCounts nb))" and nonneg: "\<And>L. 0 \<le> intAt (classDocCounts nb) L"
    and tot: "totalDocs nb = valuesSum (classDocCounts nb)"
    by (auto simp: docInvariant_def)
  from valuesSum_member[OF fin nonneg, of label] tot below
  have below_c: "intAt (classDocCounts nb) label < maxInt" by simp
  from Train_frame[OF t] goInc_below[OF below] goInc_below[OF below_c]
  have "totalDocs nb1 = totalDocs nb + 1"
    and "intAt (classDocCounts nb1) label = intAt (classDocCounts nb) label + 1"
    and "vocabulary nb |\<subseteq>| vocabulary nb1" by simp_all
  with t show ?thesis by blast
qed

lemma loaded_emptySnapshot:
  "LoadSnapshot NewNaiveBayesClassifier emptySnapshot =
     (\<lparr> classDocCounts = None, classWordCounts = None, classTotalWords = None,
        vocabulary = {||}, totalDocs = 0 \<rparr> :: char NaiveBayesClassifier)"
  by (simp add: LoadSnapshot_def emptySnapshot_def NewNaiveBayesClassifier_def copyIntMap_id copyNestedMap_id)

lemma loaded_fullSnapshot:
  "LoadSnapshot NewNaiveBayesClassifier fullSnapshot =
     \<lparr> classDocCounts = Some [''pos'' \<mapsto> maxInt], classWordCounts = Some Map.empty,
       classTotalWords = Some Map.empty, vocabulary = {||}, totalDocs = maxInt \<rparr>"
  by (simp add: LoadSnapshot_def fullSnapshot_def NewNaiveBayesClassifier_def copyIntMap_id copyNestedMap_id)

lemma loaded_noTotalsSnapshot:
  "LoadSnapshot NewNaiveBayesClassifier noTotalsSnapshot =
     \<lparr> classDocCounts = Some Map.empty, classWordCounts = Some Map.empty,
       classTotalWords = None, vocabulary = {||}, totalDocs = 0 \<rparr>"
  by (simp add: LoadSnapshot_def noTotalsSnapshot_def NewNaiveBayesClassifier_def copyIntMap_id copyNestedMap_id)

text \<open>
  C6 (amended). \<open>Train(text, label)\<close> panics exactly when \<open>classDocCounts\<close> is \<open>nil\<close>, or
  \<open>classWordCounts\<close> is \<open>nil\<close>, or the text has a token and \<open>classTotalWords\<close> or the inner
  map \<open>classWordCounts[label]\<close> is \<open>nil\<close>; in every other state it returns, whatever the
  text and the label (the empty text and the empty label included). A call that returns
  has incremented \<open>totalDocs\<close> and \<open>classDocCounts[label]\<close> once each, also when the text
  has no token: a counter that was below the largest \<open>int\<close> has grown by exactly one, a
  counter that was the largest \<open>int\<close> is now the smallest \<open>int\<close>. The vocabulary the
  call leaves contains the vocabulary it found. In a state reached by training, with
  \<open>totalDocs\<close> below the largest \<open>int\<close>, the call returns and both counters have grown by
  exactly one.
\<close>

theorem train_counts_one_document:
  "(Train U nb text label = Inl NilMapWrite) = trainPanics U nb text label
   \<and> (\<not> trainPanics U nb text label \<longrightarrow> (\<exists>nb1. Train U nb text label = Inr nb1))
   \<and> (Train U nb text label = Inr nb' \<longrightarrow>
        (totalDocs nb < maxInt \<longrightarrow> totalDocs nb' = totalDocs nb + 1)
        \<and> (totalDocs nb = maxInt \<longrightarrow> totalDocs nb' = minInt)
        \<and> (intAt (classDocCounts nb) label < maxInt \<longrightarrow>
             intAt (classDocCounts nb') label = intAt (classDocCounts nb) label + 1)
        \<and> (intAt (classDocCounts nb) label = maxInt \<longrightarrow> intAt (classDocCounts nb') label = minInt)
        \<and> vocabulary nb |\<subseteq>| vocabulary nb')
   \<and> (reachable U nb \<and> totalDocs nb < maxInt \<longrightarrow>
        (\<exists>nb1. Train U nb text label = Inr nb1 \<and> totalDocs nb1 = totalDocs nb + 1
           \<and> intAt (classDocCounts nb1) label = intAt (classDocCounts nb) label + 1
           \<and> vocabulary nb |\<subseteq>| vocabulary nb1))"
proof -
  have a: "(Train U nb text label = Inl NilMapWrite) = trainPanics U nb text label"
    by (rule Train_panics_iff)
  have b: "\<not> trainPanics U nb text label \<longrightarrow> (\<exists>nb1. Train U nb text label = Inr nb1)"
    using Train_returns[of U nb "text" label] by blast
  have c: "(totalDocs nb < maxInt \<longrightarrow> totalDocs nb' = totalDocs nb + 1)
        \<and> (totalDocs nb = maxInt \<longrightarrow> totalDocs nb' = minInt)
        \<and> (intAt (classDocCounts nb) label < maxInt \<longrightarrow>
             intAt (classDocCounts nb') label = intAt (classDocCounts nb) label + 1)
        \<and> (intAt (classDocCounts nb) label = maxInt \<longrightarrow> intAt (classDocCounts nb') label = minInt)
        \<and> vocabulary nb |\<subseteq>| vocabulary nb'"
    if t: "Train U nb text label = Inr nb'"
    using Train_frame[OF t] by (simp add: goInc_def)
  have d: "reachable U nb \<and> totalDocs nb < maxInt \<longrightarrow>
        (\<exists>nb1. Train U nb text label = Inr nb1 \<and> totalDocs nb1 = totalDocs nb + 1
           \<and> intAt (classDocCounts nb1) label = intAt (classDocCounts nb) label + 1
           \<and> vocabulary nb |\<subseteq>| vocabulary nb1)"
    using reachable_Train[of U nb "text" label] by blast
  from a b c d show ?thesis by blast
qed

theorem train_counts_one_document_witness:
  "\<not> trainPanics ascii (NewNaiveBayesClassifier :: char NaiveBayesClassifier) [] []
   \<and> reachable ascii (NewNaiveBayesClassifier :: char NaiveBayesClassifier)
   \<and> totalDocs (NewNaiveBayesClassifier :: char NaiveBayesClassifier) < maxInt
   \<and> intAt (classDocCounts (NewNaiveBayesClassifier :: char NaiveBayesClassifier)) [] < maxInt
   \<and> (\<exists>nb'. Train ascii NewNaiveBayesClassifier [] [] = Inr nb'
         \<and> totalDocs nb' = 1 \<and> intAt (classDocCounts nb') [] = 1)
   \<and> totalDocs (LoadSnapshot NewNaiveBayesClassifier fullSnapshot) = maxInt
   \<and> intAt (classDocCounts (LoadSnapshot NewNaiveBayesClassifier fullSnapshot)) ''pos'' = maxInt
   \<and> \<not> trainPanics ascii (LoadSnapshot NewNaiveBayesClassifier fullSnapshot) ''!!'' ''pos''
   \<and> (\<exists>nb'. Train ascii (LoadSnapshot NewNaiveBayesClassifier fullSnapshot) ''!!'' ''pos'' = Inr nb'
         \<and> totalDocs nb' = minInt \<and> intAt (classDocCounts nb') ''pos'' = minInt)"
proof -
  let ?new = "NewNaiveBayesClassifier :: char NaiveBayesClassifier"
  let ?full = "LoadSnapshot NewNaiveBayesClassifier fullSnapshot"
  have p: "\<not> trainPanics ascii ?new [] []"
    by (simp add: trainPanics_def NewNaiveBayesClassifier_def tok_empty)
  have r: "reachable ascii ?new" by (rule reach_new)
  have b: "totalDocs ?new < maxInt" "intAt (classDocCounts ?new) [] < maxInt"
    by (simp_all add: NewNaiveBayesClassifier_def intAt_def maxInt_def)
  from train_counts_one_document[of ascii ?new "[]" "[]"] r b(1)
  obtain nb' where t: "Train ascii ?new [] [] = Inr nb'" and "totalDocs nb' = totalDocs ?new + 1"
    and "intAt (classDocCounts nb') [] = intAt (classDocCounts ?new) [] + 1" by blast
  then have "totalDocs nb' = 1 \<and> intAt (classDocCounts nb') [] = 1"
    by (simp add: NewNaiveBayesClassifier_def intAt_def)
  with t have one: "\<exists>nb'. Train ascii ?new [] [] = Inr nb'
         \<and> totalDocs nb' = 1 \<and> intAt (classDocCounts nb') [] = 1" by blast
  have m: "totalDocs ?full = maxInt" "intAt (classDocCounts ?full) ''pos'' = maxInt"
    by (simp_all add: loaded_fullSnapshot intAt_def)
  have q: "\<not> trainPanics ascii ?full ''!!'' ''pos''"
    by (simp add: trainPanics_def loaded_fullSnapshot tok_bang)
  from train_counts_one_document[of ascii ?full "''!!''" "''pos''"] q
  obtain nb2 where t2: "Train ascii ?full ''!!'' ''pos'' = Inr nb2" by blast
  from train_counts_one_document[of ascii ?full "''!!''" "''pos''" nb2] t2 m
  have "totalDocs nb2 = minInt \<and> intAt (classDocCounts nb2) ''pos'' = minInt" by blast
  with t2 have wrap: "\<exists>nb'. Train ascii ?full ''!!'' ''pos'' = Inr nb'
         \<and> totalDocs nb' = minInt \<and> intAt (classDocCounts nb') ''pos'' = minInt" by blast
  from p r b one m q wrap show ?thesis by blast
qed

text \<open>
  The claim as stated fails in two kinds of states that \<open>LoadSnapshot\<close> installs. After a
  snapshot without mappings the call panics instead of counting the document. After a
  snapshot whose counters hold the largest \<open>int\<close> the call returns, and \<open>totalDocs\<close> and
  \<open>classDocCounts[label]\<close> have fallen to the smallest \<open>int\<close>.
\<close>

theorem train_panics_or_wraps:
  "Train ascii (LoadSnapshot NewNaiveBayesClassifier emptySnapshot) [] ''pos'' = Inl NilMapWrite
   \<and> (\<exists>nb'. Train ascii (LoadSnapshot NewNaiveBayesClassifier fullSnapshot) [] ''pos'' = Inr nb'
         \<and> totalDocs (LoadSnapshot NewNaiveBayesClassifier fullSnapshot) = 9223372036854775807
         \<and> totalDocs nb' = - 9223372036854775808
         \<and> intAt (classDocCounts (LoadSnapshot NewNaiveBayesClassifier fullSnapshot)) ''pos'' = 9223372036854775807
         \<and> intAt (classDocCounts nb') ''pos'' = - 9223372036854775808)"
  by (simp add: Train_def loaded_emptySnapshot loaded_fullSnapshot incrAt_def intAt_def tok_empty
      goInc_def maxInt_def minInt_def Let_def)

text \<open>
  C3 (amended). \<open>Reset\<close>, \<open>Predict\<close>, \<open>Evaluate\<close>, \<open>Snapshot\<close> and \<open>LoadSnapshot\<close> complete
  and return their result in every state and for every argument, whatever the orders in
  which they visit the maps: none of their map writes meets a \<open>nil\<close> map. A call of
  \<open>Train\<close> panics exactly when \<open>classDocCounts\<close> is \<open>nil\<close>, or \<open>classWordCounts\<close> is \<open>nil\<close>,
  or the text has a token and \<open>classTotalWords\<close> or the inner map \<open>classWordCounts[label]\<close>
  is \<open>nil\<close>, and completes otherwise; a call of \<open>TrainBatch\<close> panics exactly when \<open>Train\<close>
  does at one of its documents, in the state that the documents before it have left, and
  completes otherwise. The empty classifier has no \<open>nil\<close> map, and from a state without
  \<open>nil\<close> maps every sequence of core calls in which \<open>LoadSnapshot\<close> is only given snapshots
  without \<open>nil\<close> maps runs to its end: no call panics, every call returns its result, and
  the final state has no \<open>nil\<close> map again.
\<close>

theorem core_calls_complete:
  "(\<not> isTraining c \<longrightarrow> (\<exists>nb1 r. exec U nb c = Inr (nb1, r)))
   \<and> (exec U nb (CallTrain text label) = Inl NilMapWrite) = trainPanics U nb text label
   \<and> (\<not> trainPanics U nb text label \<longrightarrow> (\<exists>nb1. exec U nb (CallTrain text label) = Inr (nb1, Done)))
   \<and> (exec U nb (CallTrainBatch docs) = Inl NilMapWrite) = batchPanics U nb docs
   \<and> (\<not> batchPanics U nb docs \<longrightarrow> (\<exists>nb1. exec U nb (CallTrainBatch docs) = Inr (nb1, Done)))
   \<and> noNilMaps (NewNaiveBayesClassifier :: ('r::linorder) NaiveBayesClassifier)
   \<and> (noNilMaps nb \<and> (\<forall>c \<in> set cs. loadsNoNilMaps c) \<longrightarrow>
        (\<exists>nb' rs. run U nb cs = Inr (nb', rs) \<and> length rs = length cs \<and> noNilMaps nb'))"
proof -
  have a: "\<not> isTraining c \<longrightarrow> (\<exists>nb1 r. exec U nb c = Inr (nb1, r))"
    using exec_reader_ok[of c U nb] by blast
  have b: "(exec U nb (CallTrain text label) = Inl NilMapWrite) = trainPanics U nb text label"
    using Train_panics_iff[of U nb "text" label]
    by (cases "Train U nb text label") (simp_all add: error_is)
  have b': "\<not> trainPanics U nb text label \<longrightarrow> (\<exists>nb1. exec U nb (CallTrain text label) = Inr (nb1, Done))"
    using Train_returns[of U nb "text" label] by auto
  have d: "(exec U nb (CallTrainBatch docs) = Inl NilMapWrite) = batchPanics U nb docs"
    using TrainBatch_panics_iff[of U nb docs]
    by (cases "TrainBatch U nb docs") (simp_all add: error_is)
  have d': "\<not> batchPanics U nb docs \<longrightarrow> (\<exists>nb1. exec U nb (CallTrainBatch docs) = Inr (nb1, Done))"
    using TrainBatch_returns[of U nb docs] by auto
  have e: "noNilMaps (NewNaiveBayesClassifier :: 'r NaiveBayesClassifier)" by (rule noNilMaps_New)
  have f: "noNilMaps nb \<and> (\<forall>c \<in> set cs. loadsNoNilMaps c) \<longrightarrow>
        (\<exists>nb' rs. run U nb cs = Inr (nb', rs) \<and> length rs = length cs \<and> noNilMaps nb')"
    using run_ok[of nb cs U] by blast
  from a b b' d d' e f show ?thesis by blast
qed

theorem core_calls_complete_witness:
  "\<not> isTraining (CallPredict ''so good'' [] [] [] :: char call)
   \<and> (\<exists>nb1 r. exec ascii (LoadSnapshot NewNaiveBayesClassifier emptySnapshot) (CallPredict ''so good'' [] [] []) = Inr (nb1, r))
   \<and> \<not> trainPanics ascii (LoadSnapshot NewNaiveBayesClassifier noTotalsSnapshot) ''!!'' ''pos''
   \<and> (\<exists>nb1. exec ascii (LoadSnapshot NewNaiveBayesClassifier noTotalsSnapshot) (CallTrain ''!!'' ''pos'') = Inr (nb1, Done))
   \<and> trainPanics ascii (LoadSnapshot NewNaiveBayesClassifier noTotalsSnapshot) ''good'' ''pos''
   \<and> exec ascii (LoadSnapshot NewNaiveBayesClassifier noTotalsSnapshot) (CallTrain ''good'' ''pos'') = Inl NilMapWrite
   \<and> \<not> batchPanics ascii (LoadSnapshot NewNaiveBayesClassifier noTotalsSnapshot) [\<lparr>Text = ''!!'', Label = ''pos''\<rparr>]
   \<and> (\<exists>nb1. exec ascii (LoadSnapshot NewNaiveBayesClassifier noTotalsSnapshot)
               (CallTrainBatch [\<lparr>Text = ''!!'', Label = ''pos''\<rparr>]) = Inr (nb1, Done))
   \<and> noNilMaps (NewNaiveBayesClassifier :: char NaiveBayesClassifier)
   \<and> loadsNoNilMaps (CallTrain ''Good film'' ''pos'' :: char call)
   \<and> loadsNoNilMaps (CallLoadSnapshot (Snapshot (NewNaiveBayesClassifier :: char NaiveBayesClassifier)) noKeys)
   \<and> loadsNoNilMaps (CallTrainBatch [\<lparr>Text = ''bad'', Label = ''neg''\<rparr>, \<lparr>Text = '''', Label = ''''\<rparr>] :: char call)
   \<and> (\<exists>nb' rs. run ascii NewNaiveBayesClassifier
          [CallTrain ''Good film'' ''pos'',
           CallLoadSnapshot (Snapshot NewNaiveBayesClassifier) noKeys,
           CallTrainBatch [\<lparr>Text = ''bad'', Label = ''neg''\<rparr>, \<lparr>Text = '''', Label = ''''\<rparr>]] = Inr (nb', rs)
        \<and> length rs = 3 \<and> noNilMaps nb')"
proof -
  let ?new = "NewNaiveBayesClassifier :: char NaiveBayesClassifier"
  let ?nil = "LoadSnapshot ?new emptySnapshot"
  let ?half = "LoadSnapshot ?new noTotalsSnapshot"
  let ?c = "CallPredict ''so good'' [] [] [] :: char call"
  let ?c1 = "CallTrain ''Good film'' ''pos'' :: char call"
  let ?c2 = "CallLoadSnapshot (Snapshot ?new) noKeys"
  let ?c3 = "CallTrainBatch [\<lparr>Text = ''bad'', Label = ''neg''\<rparr>, \<lparr>Text = '''', Label = ''''\<rparr>] :: char call"
  let ?docs = "[\<lparr>Text = ''!!'', Label = ''pos''\<rparr>] :: char Document list"
  note t0 = core_calls_complete[of ?c ascii ?nil "''!!''" "''pos''" "[]" "[]"]
  note t1 = core_calls_complete[of ?c ascii ?half "''!!''" "''pos''" ?docs "[]"]
  note t2 = core_calls_complete[of ?c ascii ?half "''good''" "''pos''" "[]" "[]"]
  note t = core_calls_complete[of ?c ascii ?new "[]" "[]" "[]" "[?c1, ?c2, ?c3]"]
  have h0: "\<not> isTraining ?c" by simp
  have a: "\<exists>nb1 r. exec ascii ?nil ?c = Inr (nb1, r)"
    using t0 h0 by blast
  have p1: "\<not> trainPanics ascii ?half ''!!'' ''pos''"
    by (simp add: trainPanics_def loaded_noTotalsSnapshot tok_bang)
  have b1: "\<exists>nb1. exec ascii ?half (CallTrain ''!!'' ''pos'') = Inr (nb1, Done)"
    using t1 p1 by blast
  have p2: "trainPanics ascii ?half ''good'' ''pos''"
    by (simp add: trainPanics_def loaded_noTotalsSnapshot tok_good)
  have b2: "exec ascii ?half (CallTrain ''good'' ''pos'') = Inl NilMapWrite"
    using t2 p2 by blast
  have p3: "\<not> batchPanics ascii ?half ?docs"
  proof -
    from b1 obtain nb1 where "Train ascii ?half ''!!'' ''pos'' = Inr nb1"
      by (cases "Train ascii ?half ''!!'' ''pos''") auto
    with p1 show ?thesis by simp
  qed
  have b3: "\<exists>nb1. exec ascii ?half (CallTrainBatch ?docs) = Inr (nb1, Done)"
    using t1 p3 by blast
  have h1: "loadsNoNilMaps ?c1" by simp
  have h2: "loadsNoNilMaps ?c2"
    by (simp add: snapshotNoNilMaps_def Snapshot_def NewNaiveBayesClassifier_def copyIntMap_id
        copyNestedMap_id innerMapsPresent_def)
  have h3: "loadsNoNilMaps ?c3" by simp
  have n: "noNilMaps ?new" using t by blast
  have "\<forall>c \<in> set [?c1, ?c2, ?c3]. loadsNoNilMaps c" using h1 h2 h3 by simp
  with t n obtain nb' rs where r: "run ascii ?new [?c1, ?c2, ?c3] = Inr (nb', rs)"
    and l: "length rs = length [?c1, ?c2, ?c3]" and n': "noNilMaps nb'" by blast
  from l have "length rs = 3" by simp
  with r n' have b: "\<exists>nb' rs. run ascii ?new [?c1, ?c2, ?c3] = Inr (nb', rs) \<and> length rs = 3 \<and> noNilMaps nb'"
    by blast
  from h0 a p1 b1 p2 b2 p3 b3 n h1 h2 h3 b show ?thesis by blast
qed

text \<open>
  The claim as stated fails after \<open>LoadSnapshot\<close> of a snapshot whose mappings are
  absent: the next \<open>Train\<close> writes to a \<open>nil\<close> map and panics.
\<close>

theorem train_after_empty_snapshot_panics:
  "run ascii NewNaiveBayesClassifier
     [CallLoadSnapshot emptySnapshot noKeys, CallTrain ''good'' ''pos''] = Inl NilMapWrite"
  by (simp add: Train_def LoadSnapshotChecked_def copyIntMapChecked_def copyNestedMapChecked_def
      emptySnapshot_def incrAt_def)

section \<open>The metrics of an evaluation are consistent\<close>

lemma sum_dom_upd:
  fixes h :: "'k \<Rightarrow> 'v option \<Rightarrow> int"
  assumes fin: "finite (dom f)" and zero: "h a None = 0"
  shows "(\<Sum>k \<in> dom (f(a \<mapsto> x)). h k ((f(a \<mapsto> x)) k))
           = (\<Sum>k \<in> dom f. h k (f k)) - h a (f a) + h a (Some x)"
proof -
  have rest: "(\<Sum>k \<in> dom f - {a}. h k ((f(a \<mapsto> x)) k)) = (\<Sum>k \<in> dom f - {a}. h k (f k))"
    by (rule sum.cong) auto
  have new: "(\<Sum>k \<in> dom (f(a \<mapsto> x)). h k ((f(a \<mapsto> x)) k))
      = h a (Some x) + (\<Sum>k \<in> dom f - {a}. h k (f k))"
    using fin rest by (simp add: sum.insert_remove)
  have old: "(\<Sum>k \<in> dom f. h k (f k)) = h a (f a) + (\<Sum>k \<in> dom f - {a}. h k (f k))"
  proof (cases "a \<in> dom f")
    case True
    with fin show ?thesis by (simp add: sum.remove)
  next
    case False
    then have none: "f a = None" by auto
    then have "dom f - {a} = dom f" by auto
    with none zero show ?thesis by simp
  qed
  from new old show ?thesis by simp
qed

lemma record_prediction:
  fixes confusion :: "'k \<rightharpoonup> ('k \<rightharpoonup> int)" and a p :: 'k
  assumes fin: "tableFinite confusion"
  defines "row \<equiv> (case confusion a of None \<Rightarrow> Map.empty | Some r \<Rightarrow> r)"
  defines "row' \<equiv> row(p \<mapsto> (case row p of None \<Rightarrow> 0 | Some v \<Rightarrow> v) + 1)"
  shows "tableFinite (confusion(a \<mapsto> row'))"
    and "confusionSum (confusion(a \<mapsto> row')) = confusionSum confusion + 1"
    and "diagonalSum (confusion(a \<mapsto> row')) = diagonalSum confusion + (if p = a then 1 else 0)"
proof -
  from fin have fd: "finite (dom confusion)" and fr: "finite (dom row)"
    by (auto simp: tableFinite_def row_def keys_def split: option.splits dest: spec[of _ a])
  have same: "valuesSum (confusion a) = valuesSum (Some row)" "\<And>k. intAt (confusion a) k = intAt (Some row) k"
    by (auto simp: row_def valuesSum_None valuesSum_empty intAt_def split: option.splits)
  have r': "row' = row(p \<mapsto> intAt (Some row) p + 1)"
    by (simp add: row'_def intAt_def)
  have vs: "valuesSum (Some row') = valuesSum (Some row) + 1"
    unfolding r' using valuesSum_upd[OF fr, of p "intAt (Some row) p + 1"] by simp
  show "tableFinite (confusion(a \<mapsto> row'))"
    using fin fr by (simp add: tableFinite_def keys_def r')
  show "confusionSum (confusion(a \<mapsto> row')) = confusionSum confusion + 1"
    unfolding confusionSum_def
    using sum_dom_upd[OF fd, of "\<lambda>k. valuesSum" a row'] same(1) vs by (simp add: valuesSum_None)
  have d: "intAt (Some row') a = intAt (Some row) a + (if p = a then 1 else 0)"
    by (simp add: r' intAt_def)
  show "diagonalSum (confusion(a \<mapsto> row')) = diagonalSum confusion + (if p = a then 1 else 0)"
    unfolding diagonalSum_def
    using sum_dom_upd[OF fd, of "\<lambda>k m. intAt m k" a row'] same(2)[of a] d
    by (simp add: intAt_None)
qed

lemma evaluateLoop_counts:
  "tableFinite confusion \<Longrightarrow>
   evaluateLoop U nb orders i docs (confusion, correct) = (confusion', correct') \<Longrightarrow>
     tableFinite confusion'
     \<and> confusionSum confusion' = confusionSum confusion + int (length docs)
     \<and> diagonalSum confusion' - correct' = diagonalSum confusion - correct
     \<and> correct \<le> correct' \<and> correct' \<le> correct + int (length docs)"
proof (induction docs arbitrary: i confusion correct)
  case Nil
  then show ?case by simp
next
  case (Cons doc docs)
  define p where "p = fst (Predict U nb (fst (orders i)) (snd (orders i)) (Text doc))"
  define row where "row = (case confusion (Label doc) of None \<Rightarrow> Map.empty | Some r \<Rightarrow> r)"
  define row' where "row' = row(p \<mapsto> (case row p of None \<Rightarrow> 0 | Some v \<Rightarrow> v) + 1)"
  define confusion1 where "confusion1 = confusion(Label doc \<mapsto> row')"
  define correct1 where "correct1 = (if p = Label doc then correct + 1 else correct)"
  from Cons.prems(2) have rec:
    "evaluateLoop U nb orders (Suc i) docs (confusion1, correct1) = (confusion', correct')"
    by (simp add: Let_def p_def row_def row'_def confusion1_def correct1_def)
  from record_prediction[OF Cons.prems(1), of "Label doc" p]
  have fin1: "tableFinite confusion1"
    and sum1: "confusionSum confusion1 = confusionSum confusion + 1"
    and diag1: "diagonalSum confusion1 = diagonalSum confusion + (if p = Label doc then 1 else 0)"
    by (simp_all add: row_def row'_def confusion1_def)
  have c1: "correct1 = correct + (if p = Label doc then 1 else 0)" by (simp add: correct1_def)
  from Cons.IH[OF fin1 rec] have ih: "tableFinite confusion'"
    "confusionSum confusion' = confusionSum confusion1 + int (length docs)"
    "diagonalSum confusion' - correct' = diagonalSum confusion1 - correct1"
    "correct1 \<le> correct'" "correct' \<le> correct1 + int (length docs)" by simp_all
  have "confusionSum confusion' = confusionSum confusion + int (length (doc # docs))"
    using ih(2) sum1 by simp
  moreover have "diagonalSum confusion' - correct' = diagonalSum confusion - correct"
    using ih(3) diag1 c1 by simp
  moreover have "correct \<le> correct'" using ih(4) c1 by (simp split: if_splits)
  moreover have "correct' \<le> correct + int (length (doc # docs))" using ih(5) c1 by (simp split: if_splits)
  ultimately show ?case using ih(1) by blast
qed

lemma tableFinite_empty: "tableFinite Map.empty"
  by (simp add: tableFinite_def keys_def)

lemma Evaluate_fields:
  obtains confusion correct where
    "evaluateLoop U nb orders 0 docs (Map.empty, 0) = (confusion, correct)"
    "Evaluate U nb orders docs = \<lparr> Total = int (length docs), Correct = correct, Confusion = confusion \<rparr>"
  by (cases "evaluateLoop U nb orders 0 docs (Map.empty, 0)") (simp add: Evaluate_def)

lemma Evaluate_tableFinite: "tableFinite (Confusion (Evaluate U nb orders docs))"
proof -
  obtain confusion correct where
    l: "evaluateLoop U nb orders 0 docs (Map.empty, 0) = (confusion, correct)"
    and e: "Evaluate U nb orders docs = \<lparr> Total = int (length docs), Correct = correct, Confusion = confusion \<rparr>"
    by (rule Evaluate_fields)
  from evaluateLoop_counts[OF tableFinite_empty l] e show ?thesis by simp
qed

lemma Evaluate_consistent:
  "Total (Evaluate U nb orders docs) = int (length docs)"
  "confusionSum (Confusion (Evaluate U nb orders docs)) = Total (Evaluate U nb orders docs)"
  "Correct (Evaluate U nb orders docs) = diagonalSum (Confusion (Evaluate U nb orders docs))"
  "0 \<le> Correct (Evaluate U nb orders docs)"
  "Correct (Evaluate U nb orders docs) \<le> Total (Evaluate U nb orders docs)"
proof -
  obtain confusion correct where
    l: "evaluateLoop U nb orders 0 docs (Map.empty, 0) = (confusion, correct)"
    and e: "Evaluate U nb orders docs = \<lparr> Total = int (length docs), Correct = correct, Confusion = confusion \<rparr>"
    by (rule Evaluate_fields)
  from evaluateLoop_counts[OF tableFinite_empty l]
  have "confusionSum confusion = int (length docs)" "diagonalSum confusion = correct"
    "0 \<le> correct" "correct \<le> int (length docs)"
    by (simp_all add: confusionSum_def diagonalSum_def)
  with e show "Total (Evaluate U nb orders docs) = int (length docs)"
    "confusionSum (Confusion (Evaluate U nb orders docs)) = Total (Evaluate U nb orders docs)"
    "Correct (Evaluate U nb orders docs) = diagonalSum (Confusion (Evaluate U nb orders docs))"
    "0 \<le> Correct (Evaluate U nb orders docs)"
    "Correct (Evaluate U nb orders docs) \<le> Total (Evaluate U nb orders docs)"
    by simp_all
qed

lemma Accuracy_cases:
  "Accuracy m = (if Total m = 0 then Finite 0 else Finite (real_of_int (Correct m) / real_of_int (Total m)))"
  by (simp add: Accuracy_def float64_of_int_def)


lemma Predict_no_classes: "fst (Predict U nb [] scoreOrder tx) = []"
  by (simp add: Predict_def Let_def)

text \<open>
  C10. The metrics that \<open>Evaluate\<close> returns are consistent, for every classifier,
  every list of documents and every iteration order of the predictions: \<open>Total\<close> is
  the number of documents, the confusion table is finite and its entries add up to
  \<open>Total\<close>,
  \<open>Correct\<close> is the sum of the diagonal entries \<open>confusion[L][L]\<close>,
  \<open>0 \<le> Correct \<le> Total\<close>, and the accuracy is a number between 0 and 1.
\<close>

theorem evaluate_metrics_consistent:
  "Total (Evaluate U nb orders docs) = int (length docs)
   \<and> tableFinite (Confusion (Evaluate U nb orders docs))
   \<and> confusionSum (Confusion (Evaluate U nb orders docs)) = Total (Evaluate U nb orders docs)
   \<and> Correct (Evaluate U nb orders docs) = diagonalSum (Confusion (Evaluate U nb orders docs))
   \<and> 0 \<le> Correct (Evaluate U nb orders docs)
   \<and> Correct (Evaluate U nb orders docs) \<le> Total (Evaluate U nb orders docs)
   \<and> (\<exists>a. Accuracy (Evaluate U nb orders docs) = Finite a \<and> 0 \<le> a \<and> a \<le> 1)"
proof -
  let ?m = "Evaluate U nb orders docs"
  note c = Evaluate_consistent[of U nb orders docs]
  have "\<exists>a. Accuracy ?m = Finite a \<and> 0 \<le> a \<and> a \<le> 1"
  proof (cases "Total ?m = 0")
    case True
    then show ?thesis by (simp add: Accuracy_cases)
  next
    case False
    with c(4,5) have "0 < Total ?m" by linarith
    with c(4,5) have "0 \<le> real_of_int (Correct ?m) / real_of_int (Total ?m)"
      and "real_of_int (Correct ?m) / real_of_int (Total ?m) \<le> 1"
      by (simp_all add: divide_le_eq_1)
    with False show ?thesis by (simp add: Accuracy_cases)
  qed
  with c Evaluate_tableFinite[of U nb orders docs] show ?thesis by blast
qed

theorem evaluate_metrics_consistent_witness:
  "Total (Evaluate ascii NewNaiveBayesClassifier (\<lambda>i. ([], []))
       [\<lparr>Text = ''good'', Label = []\<rparr>, \<lparr>Text = ''bad'', Label = ''neg''\<rparr>]) = 2
   \<and> Correct (Evaluate ascii NewNaiveBayesClassifier (\<lambda>i. ([], []))
       [\<lparr>Text = ''good'', Label = []\<rparr>, \<lparr>Text = ''bad'', Label = ''neg''\<rparr>]) = 1
   \<and> confusionSum (Confusion (Evaluate ascii NewNaiveBayesClassifier (\<lambda>i. ([], []))
       [\<lparr>Text = ''good'', Label = []\<rparr>, \<lparr>Text = ''bad'', Label = ''neg''\<rparr>])) = 2
   \<and> diagonalSum (Confusion (Evaluate ascii NewNaiveBayesClassifier (\<lambda>i. ([], []))
       [\<lparr>Text = ''good'', Label = []\<rparr>, \<lparr>Text = ''bad'', Label = ''neg''\<rparr>])) = 1"
proof -
  let ?m = "Evaluate ascii NewNaiveBayesClassifier (\<lambda>i. ([], []))
       [\<lparr>Text = ''good'', Label = []\<rparr>, \<lparr>Text = ''bad'', Label = ''neg''\<rparr>]"
  have t: "Total ?m = 2" by (simp add: Evaluate_def Let_def Predict_no_classes)
  have c: "Correct ?m = 1" by (simp add: Evaluate_def Let_def Predict_no_classes)
  note e = evaluate_metrics_consistent[of ascii NewNaiveBayesClassifier "\<lambda>i. ([], [])"
       "[\<lparr>Text = ''good'', Label = []\<rparr>, \<lparr>Text = ''bad'', Label = ''neg''\<rparr>]"]
  from e t have s: "confusionSum (Confusion ?m) = 2" by simp
  from e c have d: "diagonalSum (Confusion ?m) = 1" by simp
  from t c s d show ?thesis by blast
qed

text \<open>
  C9. For the metrics \<open>m\<close> that \<open>Evaluate\<close> returns, \<open>Total m\<close> is 0 or positive;
  the accuracy is exactly 0 when \<open>Total m = 0\<close> and \<open>Correct m\<close> divided by
  \<open>Total m\<close> when \<open>Total m > 0\<close>. It is always a finite number: the division is
  never by zero.
\<close>

theorem accuracy_is_correct_over_total:
  "m = Evaluate U nb orders docs \<Longrightarrow>
     (Total m = 0 \<longrightarrow> Accuracy m = Finite 0)
     \<and> (0 < Total m \<longrightarrow> Accuracy m = Finite (real_of_int (Correct m) / real_of_int (Total m)))
     \<and> (Total m = 0 \<or> 0 < Total m)
     \<and> Accuracy m \<noteq> NaN \<and> Accuracy m \<noteq> PosInf \<and> Accuracy m \<noteq> NegInf"
  using Evaluate_consistent(1)[of U nb orders docs] by (auto simp: Accuracy_cases)

theorem accuracy_is_correct_over_total_witness:
  "Total (Evaluate ascii NewNaiveBayesClassifier (\<lambda>i. ([], [])) []) = 0
   \<and> Accuracy (Evaluate ascii NewNaiveBayesClassifier (\<lambda>i. ([], [])) []) = Finite 0
   \<and> 0 < Total (Evaluate ascii NewNaiveBayesClassifier (\<lambda>i. ([], [])) [\<lparr>Text = ''good'', Label = []\<rparr>])
   \<and> Accuracy (Evaluate ascii NewNaiveBayesClassifier (\<lambda>i. ([], [])) [\<lparr>Text = ''good'', Label = []\<rparr>]) = Finite 1"
proof -
  let ?m0 = "Evaluate ascii NewNaiveBayesClassifier (\<lambda>i. ([], [])) []"
  let ?m1 = "Evaluate ascii NewNaiveBayesClassifier (\<lambda>i. ([], [])) [\<lparr>Text = ''good'', Label = []\<rparr>]"
  have t0: "Total ?m0 = 0" by (simp add: Evaluate_def)
  have t1: "Total ?m1 = 1" and c1: "Correct ?m1 = 1"
    by (simp_all add: Evaluate_def Let_def Predict_no_classes)
  from accuracy_is_correct_over_total[OF refl, of ascii NewNaiveBayesClassifier "\<lambda>i. ([], [])" "[]"] t0
  have a0: "Accuracy ?m0 = Finite 0" by blast
  have p1: "0 < Total ?m1" using t1 by simp
  from accuracy_is_correct_over_total[OF refl, of ascii NewNaiveBayesClassifier "\<lambda>i. ([], [])"
      "[\<lparr>Text = ''good'', Label = []\<rparr>]"] p1
  have "Accuracy ?m1 = Finite (real_of_int (Correct ?m1) / real_of_int (Total ?m1))" by blast
  then have a1: "Accuracy ?m1 = Finite 1" using t1 c1 by simp
  from t0 a0 p1 a1 show ?thesis by blast
qed

section \<open>The loop of Predict computes the raw log-scores and their maximum\<close>

lemma fgt_irrefl: "\<not> fgt x x"
  by (cases x) simp_all

lemma fgt_asym: "fgt x y \<Longrightarrow> \<not> fgt y x"
  by (cases x; cases y) simp_all

lemma fgt_trans: "fgt x y \<Longrightarrow> fgt y z \<Longrightarrow> fgt x z"
  by (cases x; cases y; cases z) simp_all

lemma fgt_not_below: "\<not> fgt x b \<Longrightarrow> fgt b' b \<Longrightarrow> \<not> fgt x b'"
  by (cases x; cases b; cases b') simp_all

lemma scoreTokens_foldl:
  "[] \<notin> set toks \<Longrightarrow>
     scoreTokens nb C (float64_of_int (intAt (classTotalWords nb) C))
        (float64_of_int (int (fcard (vocabulary nb)))) toks logProb
       = foldl fadd logProb (map (smoothedTerm nb C) toks)"
  by (induction toks arbitrary: logProb) (auto simp: Let_def smoothedTerm_def tokenCount_def)

lemma scoreClasses_char:
  assumes ne: "[] \<notin> set toks"
  shows "scoreClasses nb toks (float64_of_int (int (fcard (vocabulary nb)))) cs (scores, l, b)
           = (\<lambda>C. if C \<in> set cs \<and> scored nb C then Some (rawScore nb toks C) else scores C,
              runningBest (rawScore nb toks) (filter (scored nb) cs) (l, b))"
proof (induction cs arbitrary: scores l b)
  case Nil
  show ?case by simp
next
  case (Cons c cs)
  show ?case
  proof (cases "scored nb c")
    case False
    then have "intAt (classDocCounts nb) c = 0" by (simp add: scored_def)
    with False show ?thesis by (simp add: Cons.IH) (rule ext, auto)
  next
    case True
    then have nz: "intAt (classDocCounts nb) c \<noteq> 0" by (simp add: scored_def)
    have lp: "scoreTokens nb c (float64_of_int (intAt (classTotalWords nb) c))
        (float64_of_int (int (fcard (vocabulary nb)))) toks
        (math_Log (fdiv (float64_of_int (intAt (classDocCounts nb) c)) (float64_of_int (totalDocs nb))))
        = rawScore nb toks c"
      by (simp add: scoreTokens_foldl[OF ne] rawScore_def)
    show ?thesis
      using True nz by (simp add: Let_def lp Cons.IH) (rule ext, auto)
  qed
qed

lemma runningBest_cases:
  "runningBest s cs (l, b) = (l', b') \<Longrightarrow> (l' = l \<and> b' = b) \<or> (l' \<in> set cs \<and> b' = s l' \<and> fgt b' b)"
proof (induction cs arbitrary: l b)
  case Nil
  then show ?case by simp
next
  case (Cons c cs)
  show ?case
  proof (cases "fgt (s c) b")
    case True
    with Cons.prems have "runningBest s cs (c, s c) = (l', b')" by simp
    from Cons.IH[OF this] True show ?thesis by (auto intro: fgt_trans)
  next
    case False
    with Cons.prems have "runningBest s cs (l, b) = (l', b')" by simp
    from Cons.IH[OF this] show ?thesis by auto
  qed
qed

lemma runningBest_upper:
  "runningBest s cs (l, b) = (l', b') \<Longrightarrow> c \<in> set cs \<Longrightarrow> \<not> fgt (s c) b'"
proof (induction cs arbitrary: l b)
  case Nil
  then show ?case by simp
next
  case (Cons x cs)
  show ?case
  proof (cases "fgt (s x) b")
    case True
    with Cons.prems(1) have r: "runningBest s cs (x, s x) = (l', b')" by simp
    show ?thesis
    proof (cases "c \<in> set cs")
      case True
      from Cons.IH[OF r True] show ?thesis .
    next
      case False
      with Cons.prems(2) have "c = x" by simp
      moreover from runningBest_cases[OF r] have "b' = s x \<or> fgt b' (s x)" by auto
      ultimately show ?thesis using fgt_irrefl fgt_asym by metis
    qed
  next
    case False
    with Cons.prems(1) have r: "runningBest s cs (l, b) = (l', b')" by simp
    show ?thesis
    proof (cases "c \<in> set cs")
      case True
      from Cons.IH[OF r True] show ?thesis .
    next
      case False
      with Cons.prems(2) have cx: "c = x" by simp
      from runningBest_cases[OF r] have "b' = b \<or> fgt b' b" by auto
      with \<open>\<not> fgt (s x) b\<close> cx show ?thesis using fgt_not_below by metis
    qed
  qed
qed

lemma runningBest_moves:
  "runningBest s cs (l, b) = (l', b') \<Longrightarrow> c \<in> set cs \<Longrightarrow> fgt (s c) b \<Longrightarrow>
     l' \<in> set cs \<and> b' = s l' \<and> fgt b' b"
proof -
  assume r: "runningBest s cs (l, b) = (l', b')" and c: "c \<in> set cs" and g: "fgt (s c) b"
  from runningBest_cases[OF r] show ?thesis
  proof
    assume "l' = l \<and> b' = b"
    with runningBest_upper[OF r c] g show ?thesis by simp
  next
    assume "l' \<in> set cs \<and> b' = s l' \<and> fgt b' b"
    then show ?thesis .
  qed
qed

lemma runningBest_stays:
  "\<forall>c \<in> set cs. \<not> fgt (s c) b \<Longrightarrow> runningBest s cs (l, b) = (l, b)"
  by (induction cs) simp_all

lemma runningBest_at_max:
  "\<forall>c \<in> set cs. c \<noteq> m \<longrightarrow> fgt (s m) (s c) \<Longrightarrow> runningBest s cs (m, s m) = (m, s m)"
  by (rule runningBest_stays) (metis fgt_asym fgt_irrefl)

lemma runningBest_unique_max:
  "m \<in> set cs \<Longrightarrow> fgt (s m) b \<Longrightarrow> \<forall>c \<in> set cs. c \<noteq> m \<longrightarrow> fgt (s m) (s c) \<Longrightarrow>
     runningBest s cs (l, b) = (m, s m)"
proof (induction cs arbitrary: l b)
  case Nil
  then show ?case by simp
next
  case (Cons c cs)
  show ?case
  proof (cases "c = m")
    case True
    with Cons.prems show ?thesis by (simp add: runningBest_at_max)
  next
    case False
    with Cons.prems have m: "m \<in> set cs" and dom: "\<forall>c \<in> set cs. c \<noteq> m \<longrightarrow> fgt (s m) (s c)"
      and gc: "fgt (s m) (s c)" by auto
    show ?thesis
    proof (cases "fgt (s c) b")
      case True
      then show ?thesis using Cons.IH[OF m gc dom] by simp
    next
      case False
      then show ?thesis using Cons.IH[OF m Cons.prems(2) dom] by simp
    qed
  qed
qed

lemma fgt_above: "fgt a x \<Longrightarrow> \<not> fgt a c \<Longrightarrow> fgt c b \<Longrightarrow> fgt c x"
  by (cases a; cases x; cases c; cases b) simp_all

lemma find_cong_set: "(\<And>x. x \<in> set xs \<Longrightarrow> P x = Q x) \<Longrightarrow> find P xs = find Q xs"
  by (induction xs) simp_all

lemma find_filter: "find P (filter S xs) = find (\<lambda>x. S x \<and> P x) xs"
  by (induction xs) simp_all

text \<open>
  The loop keeps the first class of the list whose score is greater than the initial
  best score and is not exceeded by the score of any class of the list.
\<close>

lemma find_skip: "\<not> P x \<Longrightarrow> find P (x # xs) = find P xs"
  by simp

lemma find_hit: "P x \<Longrightarrow> find P (x # xs) = Some x"
  by simp

lemma maximum_exists:
  assumes "c \<in> set cs" and "fgt (s c) b"
  shows "\<exists>m \<in> set cs. fgt (s m) b \<and> (\<forall>c' \<in> set cs. \<not> fgt (s c') (s m))"
proof -
  obtain l' b' where r: "runningBest s cs (undefined, b) = (l', b')"
    by (cases "runningBest s cs (undefined, b)")
  from runningBest_moves[OF r assms] have m: "l' \<in> set cs" and b': "b' = s l'" and g: "fgt b' b"
    by blast+
  have "\<forall>c' \<in> set cs. \<not> fgt (s c') b'" using runningBest_upper[OF r] by blast
  with m g show ?thesis unfolding b' by blast
qed

lemma runningBest_first:
  "runningBest s cs (l, b) =
     (case find (\<lambda>c. fgt (s c) b \<and> (\<forall>c' \<in> set cs. \<not> fgt (s c') (s c))) cs of
        None \<Rightarrow> (l, b)
      | Some c \<Rightarrow> (c, s c))"
proof (induction cs arbitrary: l b)
  case Nil
  show ?case by simp
next
  case (Cons x xs)
  define Q where "Q = (\<lambda>c. fgt (s c) b \<and> (\<forall>c' \<in> set (x # xs). \<not> fgt (s c') (s c)))"
  have goal: "runningBest s (x # xs) (l, b) = (case find Q (x # xs) of None \<Rightarrow> (l, b) | Some c \<Rightarrow> (c, s c))"
  proof (cases "fgt (s x) b")
    case True
    define Q' where "Q' = (\<lambda>c. fgt (s c) (s x) \<and> (\<forall>c' \<in> set xs. \<not> fgt (s c') (s c)))"
    have "runningBest s (x # xs) (l, b) = runningBest s xs (x, s x)" using True by simp
    also have "\<dots> = (case find Q' xs of None \<Rightarrow> (x, s x) | Some c \<Rightarrow> (c, s c))"
      unfolding Q'_def by (rule Cons.IH)
    finally have run: "runningBest s (x # xs) (l, b)
        = (case find Q' xs of None \<Rightarrow> (x, s x) | Some c \<Rightarrow> (c, s c))" .
    show ?thesis
    proof (cases "\<forall>c' \<in> set xs. \<not> fgt (s c') (s x)")
      case top: True
      then have "Q x" using True by (simp add: Q_def fgt_irrefl)
      then have f: "find Q (x # xs) = Some x" by (rule find_hit)
      have "\<And>c. c \<in> set xs \<Longrightarrow> \<not> Q' c" using top by (simp add: Q'_def)
      then have "find Q' xs = None" by (simp add: find_None_iff)
      with run f show ?thesis by simp
    next
      case False
      then obtain c0 where c0: "c0 \<in> set xs" "fgt (s c0) (s x)" by blast
      then have "\<not> Q x" by (auto simp: Q_def)
      then have f: "find Q (x # xs) = find Q xs" by (rule find_skip)
      have "Q c = Q' c" if "c \<in> set xs" for c
      proof
        assume q: "Q c"
        then have "\<not> fgt (s c0) (s c)" using c0(1) by (simp add: Q_def)
        moreover from q have "fgt (s c) b" by (simp add: Q_def)
        ultimately have "fgt (s c) (s x)" by (rule fgt_above[OF c0(2)])
        with q show "Q' c" by (simp add: Q_def Q'_def)
      next
        assume q: "Q' c"
        then have "fgt (s c) b" using True fgt_trans by (auto simp: Q'_def)
        moreover have "\<not> fgt (s x) (s c)" using q fgt_asym by (auto simp: Q'_def)
        ultimately show "Q c" using q by (simp add: Q_def Q'_def)
      qed
      then have eq: "find Q xs = find Q' xs" by (rule find_cong_set)
      from maximum_exists[of c0 xs s "s x", OF c0] obtain m where "m \<in> set xs" "Q' m"
        unfolding Q'_def by blast
      then have "find Q' xs \<noteq> None" by (auto simp: find_None_iff)
      then obtain m' where "find Q' xs = Some m'" by blast
      with run f eq show ?thesis by simp
    qed
  next
    case False
    define Q' where "Q' = (\<lambda>c. fgt (s c) b \<and> (\<forall>c' \<in> set xs. \<not> fgt (s c') (s c)))"
    have "runningBest s (x # xs) (l, b) = runningBest s xs (l, b)" using False by simp
    also have "\<dots> = (case find Q' xs of None \<Rightarrow> (l, b) | Some c \<Rightarrow> (c, s c))"
      unfolding Q'_def by (rule Cons.IH)
    finally have run: "runningBest s (x # xs) (l, b)
        = (case find Q' xs of None \<Rightarrow> (l, b) | Some c \<Rightarrow> (c, s c))" .
    from False have "\<not> Q x" by (simp add: Q_def)
    then have f: "find Q (x # xs) = find Q xs" by (rule find_skip)
    have "Q c = Q' c" if "c \<in> set xs" for c
      using fgt_not_below[OF False, of "s c"] by (auto simp: Q_def Q'_def)
    then have "find Q xs = find Q' xs" by (rule find_cong_set)
    with run f show ?thesis by simp
  qed
  then show ?case unfolding Q_def .
qed

section \<open>What Predict returns\<close>


lemma trainedOnce_trained: "Train ascii NewNaiveBayesClassifier ''good'' ''pos'' = Inr trainedOnce"
  by (simp add: Train_def tok_good NewNaiveBayesClassifier_def trainedOnce_def incrAt_def intAt_def mapAt_def Let_def
      goInc_def maxInt_def)

lemma tiedModel_trained:
  "TrainBatch ascii NewNaiveBayesClassifier
     [\<lparr>Text = ''fine'', Label = ''x''\<rparr>, \<lparr>Text = ''fine'', Label = ''y''\<rparr>] = Inr tiedModel"
  by (simp add: Train_def tok_fine NewNaiveBayesClassifier_def tiedModel_def incrAt_def intAt_def mapAt_def Let_def
      goInc_def maxInt_def)

lemma trainedWithoutTokens_trained:
  "Train ascii NewNaiveBayesClassifier ''!!'' ''pos'' = Inr trainedWithoutTokens"
  by (simp add: Train_def tok_bang NewNaiveBayesClassifier_def trainedWithoutTokens_def incrAt_def intAt_def mapAt_def Let_def
      goInc_def maxInt_def)


lemma Predict_predictScores:
  "Predict U nb classOrder scoreOrder text =
     (case predictScores U nb classOrder text of
        (scores, bestLabel, bestScore) \<Rightarrow> (bestLabel, normalizeScores scoreOrder scores bestScore))"
  by (simp add: Predict_def predictScores_def Let_def)

lemma predictScores_char:
  "predictScores U nb classOrder text =
     (\<lambda>C. if C \<in> set classOrder \<and> scored nb C then Some (rawScore nb (tokenize U text) C) else None,
      runningBest (rawScore nb (tokenize U text)) (filter (scored nb) classOrder) ([], NegInf))"
  unfolding predictScores_def by (rule scoreClasses_char[OF tokenize_no_empty])

lemma scored_in_keys: "scored nb C \<Longrightarrow> C \<in> keys (classDocCounts nb)"
  by (auto simp: scored_def intAt_def keys_def split: option.splits)

lemma foldl_fadd_Finite:
  "foldl fadd (Finite a) (map (\<lambda>t. Finite (g t)) ts) = Finite (a + sum_list (map g ts))"
  by (induction ts arbitrary: a) (simp_all add: add.assoc)

lemma math_Log_pos: "0 < x \<Longrightarrow> math_Log (Finite x) = Finite (ln x)"
  by simp

lemma smoothedTerm_Finite:
  assumes "0 \<le> tokenCount nb C t"
    and "0 < intAt (classTotalWords nb) C + int (fcard (vocabulary nb))"
  shows "smoothedTerm nb C t =
     Finite (ln (real_of_int (tokenCount nb C t + 1)
               / real_of_int (intAt (classTotalWords nb) C + int (fcard (vocabulary nb)))))"
proof -
  let ?n = "real_of_int (tokenCount nb C t) + 1"
  let ?d = "real_of_int (intAt (classTotalWords nb) C) + real (fcard (vocabulary nb))"
  from assms have n: "0 < ?n" and d: "0 < ?d" by linarith+
  then have q: "0 < ?n / ?d" by simp
  have "smoothedTerm nb C t = math_Log (fdiv (Finite ?n) (Finite ?d))"
    by (simp add: smoothedTerm_def float64_of_int_def)
  also have "\<dots> = math_Log (Finite (?n / ?d))" using d by simp
  also have "\<dots> = Finite (ln (?n / ?d))" using q by (rule math_Log_pos)
  finally show ?thesis by simp
qed

lemma rawScore_real:
  assumes dc: "0 < intAt (classDocCounts nb) C" and td: "0 < totalDocs nb"
    and tc: "\<forall>t \<in> set toks. 0 \<le> tokenCount nb C t"
    and den: "0 < intAt (classTotalWords nb) C + int (fcard (vocabulary nb))"
  shows "rawScore nb toks C =
     Finite (ln (real_of_int (intAt (classDocCounts nb) C) / real_of_int (totalDocs nb))
             + (\<Sum>t \<leftarrow> toks. ln (real_of_int (tokenCount nb C t + 1)
                     / real_of_int (intAt (classTotalWords nb) C + int (fcard (vocabulary nb))))))"
proof -
  let ?g = "\<lambda>t. ln (real_of_int (tokenCount nb C t + 1)
                     / real_of_int (intAt (classTotalWords nb) C + int (fcard (vocabulary nb))))"
  have terms: "map (smoothedTerm nb C) toks = map (\<lambda>t. Finite (?g t)) toks"
    using tc den by (intro map_cong refl smoothedTerm_Finite) auto
  from dc td have q: "0 < real_of_int (intAt (classDocCounts nb) C) / real_of_int (totalDocs nb)"
    by simp
  have "math_Log (fdiv (float64_of_int (intAt (classDocCounts nb) C)) (float64_of_int (totalDocs nb)))
      = math_Log (Finite (real_of_int (intAt (classDocCounts nb) C) / real_of_int (totalDocs nb)))"
    using td by (simp add: float64_of_int_def)
  also have "\<dots> = Finite (ln (real_of_int (intAt (classDocCounts nb) C) / real_of_int (totalDocs nb)))"
    using q by (rule math_Log_pos)
  finally have prior: "math_Log (fdiv (float64_of_int (intAt (classDocCounts nb) C)) (float64_of_int (totalDocs nb)))
      = Finite (ln (real_of_int (intAt (classDocCounts nb) C) / real_of_int (totalDocs nb)))" .
  show ?thesis unfolding rawScore_def terms prior by (rule foldl_fadd_Finite)
qed

subsection \<open>Scores in trained states\<close>

lemma reachable_positive:
  assumes r: "reachable U nb" and s: "scored nb C"
  shows "0 < intAt (classDocCounts nb) C" and "0 < totalDocs nb"
    and "0 \<le> tokenCount nb C t" and "0 \<le> intAt (classTotalWords nb) C"
proof -
  from reachable_trained[OF r] have d: "docInvariant nb" and w: "wordInvariant nb"
    by (simp_all add: trained_def)
  from d have nn: "\<And>L. 0 \<le> intAt (classDocCounts nb) L" and fin: "finite (keys (classDocCounts nb))"
    and tot: "totalDocs nb = valuesSum (classDocCounts nb)" by (simp_all add: docInvariant_def)
  from s nn[of C] show pos: "0 < intAt (classDocCounts nb) C" by (simp add: scored_def)
  from valuesSum_member[OF fin nn, of C] pos tot show "0 < totalDocs nb" by simp
  from reachable_countsNonneg[OF r] have c: "\<And>t. 0 \<le> intAt (mapAt (classWordCounts nb) C) t"
    by (simp add: countsNonneg_def)
  then show "0 \<le> tokenCount nb C t" by (simp add: tokenCount_def)
  from w have "intAt (classTotalWords nb) C = valuesSum (mapAt (classWordCounts nb) C)"
    by (simp add: wordInvariant_def)
  with valuesSum_nonneg[of "mapAt (classWordCounts nb) C"] c
  show "0 \<le> intAt (classTotalWords nb) C" by simp
qed

lemma rawScore_no_tokens:
  assumes "0 < intAt (classDocCounts nb) C" and "0 < totalDocs nb"
  shows "rawScore nb [] C = Finite (ln (real_of_int (intAt (classDocCounts nb) C) / real_of_int (totalDocs nb)))"
proof -
  from assms have q: "0 < real_of_int (intAt (classDocCounts nb) C) / real_of_int (totalDocs nb)"
    by simp
  have "rawScore nb [] C = math_Log (Finite (real_of_int (intAt (classDocCounts nb) C) / real_of_int (totalDocs nb)))"
    using assms(2) by (simp add: rawScore_def float64_of_int_def)
  also have "\<dots> = Finite (ln (real_of_int (intAt (classDocCounts nb) C) / real_of_int (totalDocs nb)))"
    using q by (rule math_Log_pos)
  finally show ?thesis .
qed

lemma reachable_finite_scores:
  assumes r: "reachable U nb" and s: "scored nb C"
    and v: "vocabulary nb \<noteq> {||} \<or> toks = []"
  shows "\<exists>x. rawScore nb toks C = Finite x"
proof (cases "toks = []")
  case True
  with rawScore_no_tokens[OF reachable_positive(1,2)[OF r s]] show ?thesis by simp
next
  case False
  with v have "vocabulary nb \<noteq> {||}" by simp
  then have "0 < fcard (vocabulary nb)" by (metis fcard_0_eq gr0I)
  with reachable_positive(4)[OF r s]
  have den: "0 < intAt (classTotalWords nb) C + int (fcard (vocabulary nb))" by simp
  have "\<forall>t \<in> set toks. 0 \<le> tokenCount nb C t" using reachable_positive(3)[OF r s] by simp
  from rawScore_real[OF reachable_positive(1,2)[OF r s] this den] show ?thesis by blast
qed

lemma aboveNegInf_fadd: "aboveNegInf a \<Longrightarrow> aboveNegInf b \<Longrightarrow> aboveNegInf (fadd a b)"
  by (cases a; cases b) simp_all

lemma aboveNegInf_foldl:
  "aboveNegInf a \<Longrightarrow> \<forall>v \<in> set vs. aboveNegInf v \<Longrightarrow> aboveNegInf (foldl fadd a vs)"
  by (induction vs arbitrary: a) (simp_all add: aboveNegInf_fadd)

lemma aboveNegInf_fgt: "aboveNegInf a \<Longrightarrow> fgt a NegInf"
  by (cases a) simp_all

lemma smoothedTerm_above:
  assumes "0 \<le> tokenCount nb C t" and "0 \<le> intAt (classTotalWords nb) C"
  shows "aboveNegInf (smoothedTerm nb C t)"
proof (cases "intAt (classTotalWords nb) C + int (fcard (vocabulary nb)) = 0")
  case True
  then have "real_of_int (intAt (classTotalWords nb) C) + real (fcard (vocabulary nb)) = 0"
    by (metis of_int_add of_int_of_nat_eq of_int_0)
  moreover from assms(1) have "0 < real_of_int (tokenCount nb C t) + 1" by linarith
  ultimately show ?thesis by (simp add: smoothedTerm_def float64_of_int_def)
next
  case False
  with assms(2) have "0 < intAt (classTotalWords nb) C + int (fcard (vocabulary nb))" by linarith
  from smoothedTerm_Finite[OF assms(1) this] show ?thesis by simp
qed

lemma reachable_scores_above:
  assumes r: "reachable U nb" and s: "scored nb C"
  shows "fgt (rawScore nb toks C) NegInf"
proof -
  have prior: "aboveNegInf (math_Log (fdiv (float64_of_int (intAt (classDocCounts nb) C)) (float64_of_int (totalDocs nb))))"
    using rawScore_no_tokens[OF reachable_positive(1,2)[OF r s]] by (simp add: rawScore_def)
  have "\<forall>v \<in> set (map (smoothedTerm nb C) toks). aboveNegInf v"
    using smoothedTerm_above[OF reachable_positive(3,4)[OF r s]] by simp
  from aboveNegInf_foldl[OF prior this] show ?thesis
    unfolding rawScore_def by (rule aboveNegInf_fgt)
qed

text \<open>
  C1 (amended). For every state, every text and every order in which the loop of
  \<open>Predict\<close> visits the classes: the loop gives every class whose document count is
  not 0 (so every class with a positive count) the raw log-score of the specification,
  \<open>log(classDocCounts[C] / totalDocs)\<close> plus \<open>log((count(C, t) + 1) /
  (classTotalWords[C] + |vocabulary|))\<close> for each token of the text, and gives a class
  with count 0 no score. Where the counts are positive the score is that sum of real
  logarithms. If some scored class has a raw score above \<open>-Inf\<close>, the label that
  \<open>Predict\<close> returns is a scored class whose raw score no scored class exceeds; so it
  is in every state reached by training in which a class is scored. Otherwise (no class
  is scored, or every raw score is \<open>NaN\<close> or \<open>-Inf\<close>) the label is the empty
  string.
\<close>

theorem predict_scores_and_label:
  assumes "rangeOrder (classDocCounts nb) classOrder"
    and "predictScores U nb classOrder text = (scores, bestLabel, bestScore)"
  shows "fst (Predict U nb classOrder scoreOrder text) = bestLabel
    \<and> (\<forall>C. scores C = (if intAt (classDocCounts nb) C = 0 then None
                        else Some (rawScore nb (tokenize U text) C)))
    \<and> (\<forall>C. 0 < intAt (classDocCounts nb) C \<and> 0 < totalDocs nb
            \<and> (\<forall>t \<in> set (tokenize U text). 0 \<le> tokenCount nb C t)
            \<and> 0 < intAt (classTotalWords nb) C + int (fcard (vocabulary nb)) \<longrightarrow>
          scores C = Some (Finite
            (ln (real_of_int (intAt (classDocCounts nb) C) / real_of_int (totalDocs nb))
             + (\<Sum>t \<leftarrow> tokenize U text. ln (real_of_int (tokenCount nb C t + 1)
                     / real_of_int (intAt (classTotalWords nb) C + int (fcard (vocabulary nb))))))))
    \<and> ((\<exists>C. scored nb C \<and> fgt (rawScore nb (tokenize U text) C) NegInf) \<longrightarrow>
          scored nb bestLabel \<and> scores bestLabel = Some bestScore
          \<and> (\<forall>C. scored nb C \<longrightarrow> \<not> fgt (rawScore nb (tokenize U text) C) bestScore))
    \<and> ((\<forall>C. scored nb C \<longrightarrow> \<not> fgt (rawScore nb (tokenize U text) C) NegInf) \<longrightarrow>
          bestLabel = [] \<and> bestScore = NegInf)
    \<and> (reachable U nb \<and> (\<exists>C. scored nb C) \<longrightarrow>
          scored nb bestLabel \<and> scores bestLabel = Some bestScore
          \<and> (\<forall>C. scored nb C \<longrightarrow> \<not> fgt (rawScore nb (tokenize U text) C) bestScore))"
proof -
  let ?toks = "tokenize U text"
  let ?s = "rawScore nb ?toks"
  let ?cs = "filter (scored nb) classOrder"
  from assms(1) have keys: "set classOrder = keys (classDocCounts nb)" by (simp add: rangeOrder_def)
  have mem: "\<And>C. scored nb C \<Longrightarrow> C \<in> set ?cs" using keys scored_in_keys by auto
  from assms(2) have sc: "scores = (\<lambda>C. if C \<in> set classOrder \<and> scored nb C then Some (?s C) else None)"
    and rb: "runningBest ?s ?cs ([], NegInf) = (bestLabel, bestScore)"
    by (simp_all add: predictScores_char)
  have scores: "\<And>C. scores C = (if intAt (classDocCounts nb) C = 0 then None else Some (?s C))"
    using keys scored_in_keys[of nb] by (auto simp: sc scored_def)
  have label: "fst (Predict U nb classOrder scoreOrder text) = bestLabel"
    by (simp add: Predict_predictScores assms(2))
  have reals: "\<forall>C. 0 < intAt (classDocCounts nb) C \<and> 0 < totalDocs nb
            \<and> (\<forall>t \<in> set ?toks. 0 \<le> tokenCount nb C t)
            \<and> 0 < intAt (classTotalWords nb) C + int (fcard (vocabulary nb)) \<longrightarrow>
          scores C = Some (Finite
            (ln (real_of_int (intAt (classDocCounts nb) C) / real_of_int (totalDocs nb))
             + (\<Sum>t \<leftarrow> ?toks. ln (real_of_int (tokenCount nb C t + 1)
                     / real_of_int (intAt (classTotalWords nb) C + int (fcard (vocabulary nb)))))))"
    using scores rawScore_real[of nb _ ?toks] by auto
  have some: "(\<exists>C. scored nb C \<and> fgt (?s C) NegInf) \<longrightarrow>
          scored nb bestLabel \<and> scores bestLabel = Some bestScore
          \<and> (\<forall>C. scored nb C \<longrightarrow> \<not> fgt (?s C) bestScore)"
  proof
    assume "\<exists>C. scored nb C \<and> fgt (?s C) NegInf"
    then obtain C where C: "scored nb C" "fgt (?s C) NegInf" by blast
    from runningBest_moves[OF rb mem[OF C(1)] C(2)]
    have l: "bestLabel \<in> set ?cs" and b: "bestScore = ?s bestLabel" by auto
    from l have sl: "scored nb bestLabel" by simp
    then have "scores bestLabel = Some bestScore" using scores b by (simp add: scored_def)
    moreover have "\<forall>C. scored nb C \<longrightarrow> \<not> fgt (?s C) bestScore"
      using runningBest_upper[OF rb mem] by blast
    ultimately show "scored nb bestLabel \<and> scores bestLabel = Some bestScore
          \<and> (\<forall>C. scored nb C \<longrightarrow> \<not> fgt (?s C) bestScore)" using sl by blast
  qed
  have none: "(\<forall>C. scored nb C \<longrightarrow> \<not> fgt (?s C) NegInf) \<longrightarrow> bestLabel = [] \<and> bestScore = NegInf"
  proof
    assume "\<forall>C. scored nb C \<longrightarrow> \<not> fgt (?s C) NegInf"
    then have "\<forall>c \<in> set ?cs. \<not> fgt (?s c) NegInf" by simp
    from runningBest_stays[OF this, of "[]"] rb show "bestLabel = [] \<and> bestScore = NegInf" by simp
  qed
  have trained: "reachable U nb \<and> (\<exists>C. scored nb C) \<longrightarrow>
          scored nb bestLabel \<and> scores bestLabel = Some bestScore
          \<and> (\<forall>C. scored nb C \<longrightarrow> \<not> fgt (?s C) bestScore)"
    using some reachable_scores_above[of U nb _ ?toks] by blast
  from label scores reals some none trained show ?thesis by blast
qed


theorem predict_scores_and_label_witness:
  "rangeOrder (classDocCounts trainedOnce) [''pos'']
   \<and> 0 < intAt (classDocCounts trainedOnce) ''pos'' \<and> 0 < totalDocs trainedOnce
   \<and> 0 \<le> tokenCount trainedOnce ''pos'' ''good''
   \<and> 0 < intAt (classTotalWords trainedOnce) ''pos'' + int (fcard (vocabulary trainedOnce))
   \<and> fst (predictScores ascii trainedOnce [''pos''] ''good'') ''pos'' = Some (Finite 0)
   \<and> scored trainedOnce ''pos''
   \<and> fgt (rawScore trainedOnce (tokenize ascii ''good'') ''pos'') NegInf
   \<and> reachable ascii trainedOnce
   \<and> fst (Predict ascii trainedOnce [''pos''] [''pos''] ''good'') = ''pos''
   \<and> rangeOrder (classDocCounts (NewNaiveBayesClassifier :: char NaiveBayesClassifier)) []
   \<and> \<not> (\<exists>C. scored (NewNaiveBayesClassifier :: char NaiveBayesClassifier) C)
   \<and> fst (Predict ascii NewNaiveBayesClassifier [] [] ''good'') = []"
proof -
  let ?p = "predictScores ascii trainedOnce [''pos''] ''good''"
  have h1: "rangeOrder (classDocCounts trainedOnce) [''pos'']"
    by (simp add: rangeOrder_def keys_def trainedOnce_def)
  have h2: "?p = (fst ?p, fst (snd ?p), snd (snd ?p))" by simp
  note t = predict_scores_and_label[OF h1 h2, where scoreOrder = "[''pos'']"]
  have sc: "\<And>C. scored trainedOnce C \<longleftrightarrow> C = ''pos''"
    by (simp add: scored_def intAt_def trainedOnce_def)
  have pos: "0 < intAt (classDocCounts trainedOnce) ''pos''" "0 < totalDocs trainedOnce"
    "0 \<le> tokenCount trainedOnce ''pos'' ''good''"
    "0 < intAt (classTotalWords trainedOnce) ''pos'' + int (fcard (vocabulary trainedOnce))"
    by (simp_all add: intAt_def mapAt_def tokenCount_def trainedOnce_def fcard_finsert_if)
  have vals: "intAt (classDocCounts trainedOnce) ''pos'' = 1" "totalDocs trainedOnce = 1"
    "tokenCount trainedOnce ''pos'' ''good'' = 1"
    "intAt (classTotalWords trainedOnce) ''pos'' + int (fcard (vocabulary trainedOnce)) = 2"
    by (simp_all add: intAt_def mapAt_def tokenCount_def trainedOnce_def fcard_finsert_if)
  have hyp: "0 < intAt (classDocCounts trainedOnce) ''pos'' \<and> 0 < totalDocs trainedOnce
      \<and> (\<forall>t \<in> set (tokenize ascii ''good''). 0 \<le> tokenCount trainedOnce ''pos'' t)
      \<and> 0 < intAt (classTotalWords trainedOnce) ''pos'' + int (fcard (vocabulary trainedOnce))"
    using pos by (simp add: tok_good)
  note t[THEN conjunct2, THEN conjunct2, THEN conjunct1, rule_format, OF hyp]
  then have score: "fst ?p ''pos'' = Some (Finite 0)" by (simp add: tok_good vals)
  from t have "fst ?p ''pos'' = (if intAt (classDocCounts trainedOnce) ''pos'' = 0 then None
      else Some (rawScore trainedOnce (tokenize ascii ''good'') ''pos''))" by blast
  with score vals have raw: "rawScore trainedOnce (tokenize ascii ''good'') ''pos'' = Finite 0" by simp
  then have g: "fgt (rawScore trainedOnce (tokenize ascii ''good'') ''pos'') NegInf" by simp
  from sc have s1: "scored trainedOnce ''pos''" by simp
  have "trainFits ascii NewNaiveBayesClassifier ''good'' ''pos''"
    by (rule trainFits_New) (simp add: tok_good maxInt_def)
  then have re: "reachable ascii trainedOnce" by (rule reach_train[OF reach_new _ trainedOnce_trained])
  with s1 have "reachable ascii trainedOnce \<and> (\<exists>C. scored trainedOnce C)" by blast
  with t have "scored trainedOnce (fst (snd ?p))"
    and "fst (Predict ascii trainedOnce [''pos''] [''pos''] ''good'') = fst (snd ?p)" by blast+
  with sc have label: "fst (Predict ascii trainedOnce [''pos''] [''pos''] ''good'') = ''pos''" by simp
  let ?new = "NewNaiveBayesClassifier :: char NaiveBayesClassifier"
  let ?q = "predictScores ascii ?new [] ''good''"
  have e1: "rangeOrder (classDocCounts ?new) []"
    by (simp add: rangeOrder_def keys_def NewNaiveBayesClassifier_def)
  have e2: "?q = (fst ?q, fst (snd ?q), snd (snd ?q))" by simp
  have none: "\<not> (\<exists>C. scored ?new C)"
    by (simp add: scored_def intAt_def NewNaiveBayesClassifier_def)
  from predict_scores_and_label[OF e1 e2, where scoreOrder = "[]"] none
  have "fst (Predict ascii ?new [] [] ''good'') = fst (snd ?q)" and "fst (snd ?q) = []" by blast+
  then have empty: "fst (Predict ascii ?new [] [] ''good'') = []" by simp
  from h1 pos score s1 g re label e1 none empty show ?thesis by blast
qed

text \<open>
  The claim as stated fails where no scored class has a raw score above \<open>-Inf\<close>: the
  label is then the empty string, which is no class. So it is for the untrained
  classifier, and for the state loaded from a snapshot with class \<open>a\<close> counted once and
  \<open>total_docs = -1\<close>, whose only raw score is \<open>log(-1) = NaN\<close>.
\<close>

theorem predict_label_is_no_class:
  "fst (Predict ascii NewNaiveBayesClassifier [] [] ''good'') = []
   \<and> keys (classDocCounts (NewNaiveBayesClassifier :: char NaiveBayesClassifier)) = {}
   \<and> fst (Predict ascii (LoadSnapshot NewNaiveBayesClassifier negativeTotalSnapshot) [''a''] [''a''] []) = []
   \<and> intAt (classDocCounts (LoadSnapshot NewNaiveBayesClassifier negativeTotalSnapshot)) ''a'' = 1
   \<and> keys (classDocCounts (LoadSnapshot NewNaiveBayesClassifier negativeTotalSnapshot)) = {''a''}
   \<and> fst (predictScores ascii (LoadSnapshot NewNaiveBayesClassifier negativeTotalSnapshot) [''a''] []) ''a'' = Some NaN"
  by (simp add: Predict_def predictScores_def tok_empty LoadSnapshot_def negativeTotalSnapshot_def
      NewNaiveBayesClassifier_def keys_def copyIntMap_id copyNestedMap_id intAt_def mapAt_def
      Let_def float64_of_int_def)

section \<open>Normalisation and the iteration order\<close>


lemma twoClassModel_trained:
  "TrainBatch ascii NewNaiveBayesClassifier
     [\<lparr>Text = ''good'', Label = ''pos''\<rparr>, \<lparr>Text = ''good'', Label = ''pos''\<rparr>,
      \<lparr>Text = ''bad'', Label = ''neg''\<rparr>] = Inr twoClassModel"
  by (simp add: Train_def tok_good tok_bad NewNaiveBayesClassifier_def twoClassModel_def incrAt_def
      intAt_def mapAt_def Let_def goInc_def maxInt_def)

lemma fadd_right_commute: "fadd (fadd a y) x = fadd (fadd a x) y"
  by (cases a; cases x; cases y) simp_all

lemma expLoop_char:
  "expLoop scores b cs (n0, a0) =
     (\<lambda>C. if C \<in> set cs \<and> scores C \<noteq> None then Some (expValue scores b C) else n0 C,
      fold (\<lambda>C acc. fadd acc (expValue scores b C)) (filter (\<lambda>C. scores C \<noteq> None) cs) a0)"
proof (induction cs arbitrary: n0 a0)
  case Nil
  show ?case by simp
next
  case (Cons c cs)
  show ?case
  proof (cases "scores c")
    case None
    then show ?thesis by (simp add: Cons.IH) (rule ext, auto)
  next
    case (Some lp)
    then show ?thesis by (simp add: Cons.IH expValue_def Let_def) (rule ext, auto simp: expValue_def)
  qed
qed

lemma fold_fadd_order:
  assumes "distinct xs" and "distinct ys" and "set xs = set ys"
  shows "fold (\<lambda>C acc. fadd acc (v C)) xs a = fold (\<lambda>C acc. fadd acc (v C)) ys a"
proof -
  from assms have "mset xs = mset ys" by (simp add: set_eq_iff_mset_eq_distinct)
  moreover have "\<And>x y. (\<lambda>acc. fadd acc (v x)) \<circ> (\<lambda>acc. fadd acc (v y))
      = (\<lambda>acc. fadd acc (v y)) \<circ> (\<lambda>acc. fadd acc (v x))"
    by (rule ext) (simp add: fadd_right_commute)
  ultimately have "fold (\<lambda>C acc. fadd acc (v C)) xs = fold (\<lambda>C acc. fadd acc (v C)) ys"
    by (intro fold_multiset_equiv) auto
  then show ?thesis by simp
qed

lemma normalizeScores_order:
  assumes "distinct xs" and "distinct ys" and "set xs = set ys"
  shows "normalizeScores xs scores b = normalizeScores ys scores b"
proof -
  have f: "distinct (filter (\<lambda>C. scores C \<noteq> None) xs)" "distinct (filter (\<lambda>C. scores C \<noteq> None) ys)"
    "set (filter (\<lambda>C. scores C \<noteq> None) xs) = set (filter (\<lambda>C. scores C \<noteq> None) ys)"
    using assms by auto
  have "expLoop scores b xs (Map.empty, Finite 0) = expLoop scores b ys (Map.empty, Finite 0)"
    unfolding expLoop_char using fold_fadd_order[OF f] assms(3) by simp
  then show ?thesis by (simp add: normalizeScores_def)
qed

lemma normalizeScores_dom:
  assumes "set cs = dom scores"
  shows "dom (normalizeScores cs scores b) = dom scores"
proof (cases "dom scores = {}")
  case True
  then show ?thesis by (simp add: normalizeScores_def)
next
  case False
  have d: "dom (fst (expLoop scores b cs (Map.empty, Finite 0))) = dom scores"
    unfolding expLoop_char using assms by (auto split: if_splits)
  obtain n a where e: "expLoop scores b cs (Map.empty, Finite 0) = (n, a)" by (cases "expLoop scores b cs (Map.empty, Finite 0)")
  with d have "dom n = dom scores" by simp
  moreover have "dom (\<lambda>class. map_option (\<lambda>v. fdiv v a) (n class)) = dom n"
    by (auto simp: dom_def)
  ultimately show ?thesis using False e by (simp add: normalizeScores_def)
qed

lemma predictScores_ranged:
  assumes "rangeOrder (classDocCounts nb) classOrder"
  shows "predictScores U nb classOrder text =
     (\<lambda>C. if scored nb C then Some (rawScore nb (tokenize U text) C) else None,
      runningBest (rawScore nb (tokenize U text)) (filter (scored nb) classOrder) ([], NegInf))"
proof -
  from assms have "\<And>C. scored nb C \<Longrightarrow> C \<in> set classOrder"
    using scored_in_keys[of nb] by (simp add: rangeOrder_def)
  then have "(\<lambda>C. if C \<in> set classOrder \<and> scored nb C then Some (rawScore nb (tokenize U text) C) else None)
      = (\<lambda>C. if scored nb C then Some (rawScore nb (tokenize U text) C) else None)"
    by (intro ext) auto
  then show ?thesis by (simp add: predictScores_char)
qed

lemma scores_dom:
  "dom (\<lambda>C. if scored nb C then Some (rawScore nb toks C) else None) = {C. scored nb C}"
  by (auto simp: dom_def)


lemma Predict_label_first:
  assumes o: "rangeOrder (classDocCounts nb) classOrder"
  shows "fst (Predict U nb classOrder scoreOrder text)
     = (case find (holdsMaximum nb (tokenize U text)) classOrder of None \<Rightarrow> [] | Some C \<Rightarrow> C)"
proof -
  let ?s = "rawScore nb (tokenize U text)"
  let ?cs = "filter (scored nb) classOrder"
  let ?Q = "\<lambda>c. fgt (?s c) NegInf \<and> (\<forall>c' \<in> set ?cs. \<not> fgt (?s c') (?s c))"
  from o have all: "\<And>C. scored nb C \<Longrightarrow> C \<in> set classOrder"
    using scored_in_keys[of nb] by (simp add: rangeOrder_def)
  have "(scored nb c \<and> ?Q c) = holdsMaximum nb (tokenize U text) c" for c
    using all by (auto simp: holdsMaximum_def)
  then have f: "find ?Q ?cs = find (holdsMaximum nb (tokenize U text)) classOrder"
    by (simp add: find_filter)
  have "fst (Predict U nb classOrder scoreOrder text) = fst (runningBest ?s ?cs ([], NegInf))"
    by (simp add: Predict_predictScores predictScores_ranged[OF o] split: prod.split)
  also have "\<dots> = fst (case find ?Q ?cs of None \<Rightarrow> ([], NegInf) | Some c \<Rightarrow> (c, ?s c))"
    by (simp only: runningBest_first)
  also have "\<dots> = (case find ?Q ?cs of None \<Rightarrow> [] | Some C \<Rightarrow> C)"
    by (cases "find ?Q ?cs") simp_all
  finally show ?thesis unfolding f .
qed

text \<open>
  C8 (amended). For a fixed state and a fixed text, the label that \<open>Predict\<close> returns is
  the first class, in the order in which Go visits \<open>classDocCounts\<close>, among the scored
  classes that hold the maximum (a raw log-score greater than \<open>-Inf\<close> that no scored class
  exceeds), and the empty string when no class holds it. Whenever one scored class has a
  raw log-score strictly greater than \<open>-Inf\<close> and than the score of every other scored
  class, the result does not depend on the orders in which Go visits the two maps: any
  two calls return that class as the label and the same distribution (the model adds
  exactly; in \<open>float64\<close> the normalising sum is rounded in the order of the iteration).
\<close>

theorem predict_independent_of_iteration_order:
  assumes "rangeOrder (classDocCounts nb) classOrder"
    and "rangeOrder (classDocCounts nb) classOrder'"
    and "rangeOrder (Some (fst (predictScores U nb classOrder text))) scoreOrder"
    and "rangeOrder (Some (fst (predictScores U nb classOrder' text))) scoreOrder'"
  shows "fst (Predict U nb classOrder scoreOrder text)
           = (case find (holdsMaximum nb (tokenize U text)) classOrder of None \<Rightarrow> [] | Some C \<Rightarrow> C)
    \<and> ((\<forall>C. \<not> holdsMaximum nb (tokenize U text) C) \<longrightarrow> fst (Predict U nb classOrder scoreOrder text) = [])
    \<and> (scored nb m \<and> fgt (rawScore nb (tokenize U text) m) NegInf
        \<and> (\<forall>C. scored nb C \<and> C \<noteq> m \<longrightarrow>
              fgt (rawScore nb (tokenize U text) m) (rawScore nb (tokenize U text) C))
       \<longrightarrow> Predict U nb classOrder scoreOrder text = Predict U nb classOrder' scoreOrder' text
          \<and> fst (Predict U nb classOrder scoreOrder text) = m)"
proof -
  let ?s = "rawScore nb (tokenize U text)"
  let ?scores = "\<lambda>C. if scored nb C then Some (?s C) else None"
  have first: "fst (Predict U nb classOrder scoreOrder text)
           = (case find (holdsMaximum nb (tokenize U text)) classOrder of None \<Rightarrow> [] | Some C \<Rightarrow> C)"
    by (rule Predict_label_first[OF assms(1)])
  have none: "fst (Predict U nb classOrder scoreOrder text) = []"
    if "\<forall>C. \<not> holdsMaximum nb (tokenize U text) C"
  proof -
    from that have "find (holdsMaximum nb (tokenize U text)) classOrder = None"
      by (simp add: find_None_iff)
    with first show ?thesis by simp
  qed
  have same: "Predict U nb classOrder scoreOrder text = Predict U nb classOrder' scoreOrder' text
          \<and> fst (Predict U nb classOrder scoreOrder text) = m"
    if sm: "scored nb m" and above: "fgt (?s m) NegInf"
      and dom: "\<forall>C. scored nb C \<and> C \<noteq> m \<longrightarrow> fgt (?s m) (?s C)"
  proof -
    have best: "runningBest ?s (filter (scored nb) cs) ([], NegInf) = (m, ?s m)"
      if "rangeOrder (classDocCounts nb) cs" for cs
    proof -
      from that sm have a: "m \<in> set (filter (scored nb) cs)"
        using scored_in_keys[of nb m] by (simp add: rangeOrder_def)
      have b: "\<forall>c \<in> set (filter (scored nb) cs). c \<noteq> m \<longrightarrow> fgt (?s m) (?s c)"
        using dom by simp
      show ?thesis by (rule runningBest_unique_max[OF a above b])
    qed
    have p: "predictScores U nb classOrder text = (?scores, m, ?s m)"
      "predictScores U nb classOrder' text = (?scores, m, ?s m)"
      by (simp_all add: predictScores_ranged[OF assms(1)] predictScores_ranged[OF assms(2)]
          best[OF assms(1)] best[OF assms(2)])
    from assms(3,4) have "distinct scoreOrder" "distinct scoreOrder'" "set scoreOrder = set scoreOrder'"
      by (simp_all add: p rangeOrder_def keys_def)
    then have "normalizeScores scoreOrder ?scores (?s m) = normalizeScores scoreOrder' ?scores (?s m)"
      by (rule normalizeScores_order)
    then show ?thesis by (simp add: Predict_predictScores p)
  qed
  from first none same show ?thesis by blast
qed


lemma scored_twoClassModel: "scored twoClassModel C \<longleftrightarrow> C = ''pos'' \<or> C = ''neg''"
  by (simp add: scored_def intAt_def twoClassModel_def)

lemma rawScore_twoClassModel:
  "rawScore twoClassModel [] ''pos'' = Finite (ln (2 / 3))"
  "rawScore twoClassModel [] ''neg'' = Finite (ln (1 / 3))"
  by (simp_all add: rawScore_def intAt_def twoClassModel_def float64_of_int_def)

theorem predict_independent_of_iteration_order_witness:
  "rangeOrder (classDocCounts twoClassModel) [''pos'', ''neg'']
   \<and> rangeOrder (classDocCounts twoClassModel) [''neg'', ''pos'']
   \<and> rangeOrder (Some (fst (predictScores ascii twoClassModel [''pos'', ''neg''] ''??''))) [''neg'', ''pos'']
   \<and> rangeOrder (Some (fst (predictScores ascii twoClassModel [''neg'', ''pos''] ''??''))) [''pos'', ''neg'']
   \<and> scored twoClassModel ''pos''
   \<and> fgt (rawScore twoClassModel (tokenize ascii ''??'') ''pos'') NegInf
   \<and> fgt (rawScore twoClassModel (tokenize ascii ''??'') ''pos'') (rawScore twoClassModel (tokenize ascii ''??'') ''neg'')
   \<and> \<not> (\<exists>C. scored twoClassModel C \<and> C \<noteq> ''pos'' \<and> C \<noteq> ''neg'')
   \<and> Predict ascii twoClassModel [''pos'', ''neg''] [''neg'', ''pos''] ''??''
       = Predict ascii twoClassModel [''neg'', ''pos''] [''pos'', ''neg''] ''??''
   \<and> fst (Predict ascii twoClassModel [''pos'', ''neg''] [''neg'', ''pos''] ''??'') = ''pos''
   \<and> rangeOrder (classDocCounts (NewNaiveBayesClassifier :: char NaiveBayesClassifier)) []
   \<and> rangeOrder (Some (fst (predictScores ascii NewNaiveBayesClassifier [] ''good''))) []
   \<and> \<not> (\<exists>C. holdsMaximum (NewNaiveBayesClassifier :: char NaiveBayesClassifier) (tokenize ascii ''good'') C)
   \<and> fst (Predict ascii NewNaiveBayesClassifier [] [] ''good'') = []"
proof -
  have k: "keys (classDocCounts twoClassModel) = {''pos'', ''neg''}"
    by (auto simp: keys_def twoClassModel_def)
  have o1: "rangeOrder (classDocCounts twoClassModel) [''pos'', ''neg'']"
    and o1': "rangeOrder (classDocCounts twoClassModel) [''neg'', ''pos'']"
    using k by (auto simp: rangeOrder_def)
  have d: "keys (Some (\<lambda>C. if scored twoClassModel C then Some (rawScore twoClassModel (tokenize ascii ''??'') C) else None))
      = {''pos'', ''neg''}"
    by (auto simp: keys_def scored_twoClassModel split: if_splits)
  have o2: "rangeOrder (Some (fst (predictScores ascii twoClassModel [''pos'', ''neg''] ''??''))) [''neg'', ''pos'']"
    using d by (auto simp: predictScores_ranged[OF o1] rangeOrder_def)
  have o2': "rangeOrder (Some (fst (predictScores ascii twoClassModel [''neg'', ''pos''] ''??''))) [''pos'', ''neg'']"
    using d by (auto simp: predictScores_ranged[OF o1'] rangeOrder_def)
  have sp: "scored twoClassModel ''pos''" by (simp add: scored_twoClassModel)
  have g0: "fgt (rawScore twoClassModel (tokenize ascii ''??'') ''pos'') NegInf"
    by (simp add: tok_quest rawScore_twoClassModel)
  have g1: "fgt (rawScore twoClassModel (tokenize ascii ''??'') ''pos'') (rawScore twoClassModel (tokenize ascii ''??'') ''neg'')"
    by (simp add: tok_quest rawScore_twoClassModel)
  have only: "\<not> (\<exists>C. scored twoClassModel C \<and> C \<noteq> ''pos'' \<and> C \<noteq> ''neg'')"
    using scored_twoClassModel by blast
  have dom: "\<forall>C. scored twoClassModel C \<and> C \<noteq> ''pos'' \<longrightarrow>
      fgt (rawScore twoClassModel (tokenize ascii ''??'') ''pos'') (rawScore twoClassModel (tokenize ascii ''??'') C)"
    using g1 by (auto simp: scored_twoClassModel)
  note t = predict_independent_of_iteration_order[OF o1 o1' o2 o2', of "''pos''"]
  from t sp g0 dom
  have "Predict ascii twoClassModel [''pos'', ''neg''] [''neg'', ''pos''] ''??''
       = Predict ascii twoClassModel [''neg'', ''pos''] [''pos'', ''neg''] ''??''
     \<and> fst (Predict ascii twoClassModel [''pos'', ''neg''] [''neg'', ''pos''] ''??'') = ''pos''"
    by blast
  then have two: "Predict ascii twoClassModel [''pos'', ''neg''] [''neg'', ''pos''] ''??''
       = Predict ascii twoClassModel [''neg'', ''pos''] [''pos'', ''neg''] ''??''"
    and label: "fst (Predict ascii twoClassModel [''pos'', ''neg''] [''neg'', ''pos''] ''??'') = ''pos''"
    by blast+
  let ?new = "NewNaiveBayesClassifier :: char NaiveBayesClassifier"
  have n1: "rangeOrder (classDocCounts ?new) []"
    by (simp add: rangeOrder_def keys_def NewNaiveBayesClassifier_def)
  have n2: "rangeOrder (Some (fst (predictScores ascii ?new [] ''good''))) []"
    by (simp add: rangeOrder_def keys_def predictScores_def)
  have n3: "\<not> (\<exists>C. holdsMaximum ?new (tokenize ascii ''good'') C)"
    by (simp add: holdsMaximum_def scored_def intAt_def NewNaiveBayesClassifier_def)
  note u = predict_independent_of_iteration_order[OF n1 n1 n2 n2, of "[]"]
  from u n3 have n4: "fst (Predict ascii ?new [] [] ''good'') = []" by blast
  from o1 o1' o2 o2' sp g0 g1 only two label n1 n2 n3 n4 show ?thesis by blast
qed

text \<open>
  The claim as stated fails at an exact tie: after \<open>Train("fine", "x")\<close> and
  \<open>Train("fine", "y")\<close> both classes have the same raw score for the text
  \<open>"fine"\<close>, and the label is the class that the loop visits first.
\<close>

theorem predict_tie_follows_iteration_order:
  "TrainBatch ascii NewNaiveBayesClassifier
     [\<lparr>Text = ''fine'', Label = ''x''\<rparr>, \<lparr>Text = ''fine'', Label = ''y''\<rparr>] = Inr tiedModel
   \<and> rangeOrder (classDocCounts tiedModel) [''x'', ''y'']
   \<and> rangeOrder (classDocCounts tiedModel) [''y'', ''x'']
   \<and> fst (Predict ascii tiedModel [''x'', ''y''] [''x'', ''y''] ''fine'') = ''x''
   \<and> fst (Predict ascii tiedModel [''y'', ''x''] [''x'', ''y''] ''fine'') = ''y''"
proof -
  have "rangeOrder (classDocCounts tiedModel) [''x'', ''y'']"
    and "rangeOrder (classDocCounts tiedModel) [''y'', ''x'']"
    by (auto simp: rangeOrder_def keys_def tiedModel_def)
  moreover have "fst (Predict ascii tiedModel [''x'', ''y''] [''x'', ''y''] ''fine'') = ''x''"
    and "fst (Predict ascii tiedModel [''y'', ''x''] [''x'', ''y''] ''fine'') = ''y''"
    by (simp_all add: Predict_def tok_fine tiedModel_def intAt_def mapAt_def Let_def float64_of_int_def)
  ultimately show ?thesis using tiedModel_trained by blast
qed

section \<open>The distribution\<close>

lemma expLoop_finite:
  assumes "\<forall>C \<in> set cs. scores C = Some (Finite (x C))"
  shows "expLoop scores (Finite bm) cs (n0, Finite a0) =
     (\<lambda>C. if C \<in> set cs then Some (Finite (exp (x C - bm))) else n0 C,
      Finite (a0 + (\<Sum>C \<leftarrow> cs. exp (x C - bm))))"
  using assms
proof (induction cs arbitrary: n0 a0)
  case Nil
  show ?case by simp
next
  case (Cons c cs)
  then have c: "scores c = Some (Finite (x c))" and rest: "\<forall>C \<in> set cs. scores C = Some (Finite (x C))"
    by simp_all
  show ?case by (simp add: c Cons.IH[OF rest] Let_def add.assoc) (rule ext, auto)
qed

lemma normalizeScores_finite:
  assumes d: "distinct cs" and s: "set cs = dom scores" and ne: "cs \<noteq> []"
    and fin: "\<forall>C \<in> set cs. scores C = Some (Finite (x C))"
  shows "normalizeScores cs scores (Finite bm) =
     (\<lambda>C. if C \<in> set cs then Some (Finite (exp (x C - bm) / (\<Sum>C \<in> set cs. exp (x C - bm)))) else None)"
proof -
  let ?Z = "\<Sum>C \<in> set cs. exp (x C - bm)"
  have "(\<Sum>C \<leftarrow> cs. exp (x C - bm)) = ?Z" using d by (rule sum_list_distinct_conv_sum_set)
  then have e: "expLoop scores (Finite bm) cs (Map.empty, Finite 0) =
     (\<lambda>C. if C \<in> set cs then Some (Finite (exp (x C - bm))) else None, Finite ?Z)"
    by (simp add: expLoop_finite[OF fin])
  from ne have "set cs \<noteq> {}" by simp
  then have "0 < ?Z" by (intro sum_pos) simp_all
  then have z: "?Z \<noteq> 0" by simp
  from ne s have "dom scores \<noteq> {}" by auto
  then show ?thesis using z by (simp add: normalizeScores_def e) (rule ext, simp)
qed


lemma Predict_nothing_scored:
  assumes "\<forall>C. \<not> scored nb C"
  shows "Predict U nb classOrder scoreOrder text = ([], Map.empty)"
proof -
  from assms have "filter (scored nb) classOrder = []" by (induction classOrder) simp_all
  then have "predictScores U nb classOrder text = (Map.empty, [], NegInf)"
    using assms by (simp add: predictScores_char)
  then show ?thesis by (simp add: Predict_predictScores normalizeScores_def)
qed

lemma Predict_dom:
  assumes o1: "rangeOrder (classDocCounts nb) classOrder"
    and o2: "rangeOrder (Some (fst (predictScores U nb classOrder text))) scoreOrder"
  shows "dom (snd (Predict U nb classOrder scoreOrder text)) = {C. scored nb C}"
proof -
  let ?scores = "\<lambda>C. if scored nb C then Some (rawScore nb (tokenize U text) C) else None"
  from o2 have "set scoreOrder = dom ?scores"
    by (simp add: predictScores_ranged[OF o1] rangeOrder_def keys_def)
  from normalizeScores_dom[OF this] show ?thesis
    by (simp add: Predict_predictScores predictScores_ranged[OF o1] scores_dom split: prod.split)
qed

lemma Predict_finite_scores:
  assumes o1: "rangeOrder (classDocCounts nb) classOrder"
    and o2: "rangeOrder (Some (fst (predictScores U nb classOrder text))) scoreOrder"
    and some: "\<exists>C. scored nb C"
    and fin: "\<forall>C. scored nb C \<longrightarrow> (\<exists>x. rawScore nb (tokenize U text) C = Finite x)"
  shows "\<exists>p. (\<forall>C. scored nb C \<longrightarrow>
              snd (Predict U nb classOrder scoreOrder text) C = Some (Finite (p C)) \<and> 0 \<le> p C)
           \<and> (\<Sum>C | scored nb C. p C) = 1"
proof -
  let ?s = "rawScore nb (tokenize U text)"
  let ?scores = "\<lambda>C. if scored nb C then Some (?s C) else None"
  let ?cs = "filter (scored nb) classOrder"
  define x where "x C = (case ?s C of Finite r \<Rightarrow> r | _ \<Rightarrow> 0)" for C
  have sx: "?s C = Finite (x C)" if "scored nb C" for C
    using fin that by (auto simp: x_def)
  from o2 have so: "distinct scoreOrder" "set scoreOrder = {C. scored nb C}"
    by (simp_all add: predictScores_ranged[OF o1] rangeOrder_def keys_def scores_dom)
  from some obtain C0 where C0: "scored nb C0" by blast
  obtain l b where rb: "runningBest ?s ?cs ([], NegInf) = (l, b)"
    by (cases "runningBest ?s ?cs ([], NegInf)")
  have "C0 \<in> set ?cs" using C0 o1 scored_in_keys[of nb C0] by (simp add: rangeOrder_def)
  moreover have "fgt (?s C0) NegInf" using sx[OF C0] by simp
  ultimately have "l \<in> set ?cs" "b = ?s l" using runningBest_moves[OF rb] by blast+
  then have b: "b = Finite (x l)" using sx[of l] by simp
  let ?Z = "\<Sum>C \<in> set scoreOrder. exp (x C - x l)"
  let ?p = "\<lambda>C. exp (x C - x l) / ?Z"
  have ne: "scoreOrder \<noteq> []" using so(2) C0 by auto
  have "\<forall>C \<in> set scoreOrder. ?scores C = Some (Finite (x C))" using so(2) sx by simp
  from normalizeScores_finite[OF so(1) _ ne this, of "x l"] so(2)
  have n: "normalizeScores scoreOrder ?scores (Finite (x l)) =
      (\<lambda>C. if C \<in> set scoreOrder then Some (Finite (?p C)) else None)"
    by (simp add: scores_dom)
  have P: "snd (Predict U nb classOrder scoreOrder text) =
      (\<lambda>C. if C \<in> set scoreOrder then Some (Finite (?p C)) else None)"
  proof -
    have "predictScores U nb classOrder text = (?scores, l, b)"
      by (simp only: predictScores_ranged[OF o1] rb)
    then have "snd (Predict U nb classOrder scoreOrder text) = normalizeScores scoreOrder ?scores (Finite (x l))"
      by (simp only: Predict_predictScores b prod.case snd_conv)
    then show ?thesis by (simp only: n)
  qed
  have "set scoreOrder \<noteq> {}" using ne by simp
  then have Z: "0 < ?Z" by (intro sum_pos) simp_all
  have vals: "\<forall>C. scored nb C \<longrightarrow>
      snd (Predict U nb classOrder scoreOrder text) C = Some (Finite (?p C)) \<and> 0 \<le> ?p C"
    using Z so(2) by (simp add: P)
  have "(\<Sum>C | scored nb C. ?p C) = (\<Sum>C \<in> set scoreOrder. exp (x C - x l)) / ?Z"
    unfolding so(2)[symmetric] by (rule sum_divide_distrib[symmetric])
  also have "\<dots> = 1" using Z by simp
  finally have one: "(\<Sum>C | scored nb C. ?p C) = 1" .
  show ?thesis by (rule exI[of _ ?p]) (rule conjI[OF vals one])
qed

text \<open>
  C2 (amended). For every state and text: if no class has a document count other than 0
  (the untrained classifier, say), \<open>Predict\<close> returns the empty string and the empty
  distribution. Otherwise the distribution has exactly the classes with a count other
  than 0 as its keys, and if all their raw log-scores are finite numbers, its values are
  numbers \<open>\<ge> 0\<close> that add up to 1 (exactly, in a model that does not round). The raw
  scores are finite in every state reached by training whose vocabulary is not empty,
  and for a text without tokens.
\<close>

theorem predict_distribution:
  "((\<forall>C. \<not> scored nb C) \<longrightarrow> Predict U nb classOrder scoreOrder text = ([], Map.empty))
   \<and> (rangeOrder (classDocCounts nb) classOrder
      \<and> rangeOrder (Some (fst (predictScores U nb classOrder text))) scoreOrder \<longrightarrow>
        dom (snd (Predict U nb classOrder scoreOrder text)) = {C. scored nb C}
        \<and> ((\<exists>C. scored nb C)
            \<and> (\<forall>C. scored nb C \<longrightarrow> (\<exists>x. rawScore nb (tokenize U text) C = Finite x)) \<longrightarrow>
             (\<exists>p. (\<forall>C. scored nb C \<longrightarrow>
                     snd (Predict U nb classOrder scoreOrder text) C = Some (Finite (p C)) \<and> 0 \<le> p C)
                  \<and> (\<Sum>C | scored nb C. p C) = 1))
        \<and> ((\<exists>C. scored nb C) \<and> reachable U nb
            \<and> (vocabulary nb \<noteq> {||} \<or> tokenize U text = []) \<longrightarrow>
             (\<exists>p. (\<forall>C. scored nb C \<longrightarrow>
                     snd (Predict U nb classOrder scoreOrder text) C = Some (Finite (p C)) \<and> 0 \<le> p C)
                  \<and> (\<Sum>C | scored nb C. p C) = 1)))"
proof -
  have a: "(\<forall>C. \<not> scored nb C) \<longrightarrow> Predict U nb classOrder scoreOrder text = ([], Map.empty)"
    using Predict_nothing_scored[of nb U classOrder scoreOrder "text"] by blast
  have b: "dom (snd (Predict U nb classOrder scoreOrder text)) = {C. scored nb C}"
    if "rangeOrder (classDocCounts nb) classOrder"
      and "rangeOrder (Some (fst (predictScores U nb classOrder text))) scoreOrder"
    using that by (rule Predict_dom)
  have c: "\<exists>p. (\<forall>C. scored nb C \<longrightarrow>
                snd (Predict U nb classOrder scoreOrder text) C = Some (Finite (p C)) \<and> 0 \<le> p C)
             \<and> (\<Sum>C | scored nb C. p C) = 1"
    if "rangeOrder (classDocCounts nb) classOrder"
      and "rangeOrder (Some (fst (predictScores U nb classOrder text))) scoreOrder"
      and "\<exists>C. scored nb C"
      and "\<forall>C. scored nb C \<longrightarrow> (\<exists>x. rawScore nb (tokenize U text) C = Finite x)"
    using that by (rule Predict_finite_scores)
  have d: "\<forall>C. scored nb C \<longrightarrow> (\<exists>x. rawScore nb (tokenize U text) C = Finite x)"
    if "reachable U nb" and "vocabulary nb \<noteq> {||} \<or> tokenize U text = []"
    using that reachable_finite_scores[of U nb _ "tokenize U text"] by blast
  show ?thesis
  proof (intro conjI impI)
    assume "\<forall>C. \<not> scored nb C"
    with a show "Predict U nb classOrder scoreOrder text = ([], Map.empty)" by blast
  next
    assume o: "rangeOrder (classDocCounts nb) classOrder
      \<and> rangeOrder (Some (fst (predictScores U nb classOrder text))) scoreOrder"
    then show "dom (snd (Predict U nb classOrder scoreOrder text)) = {C. scored nb C}"
      using b by blast
  next
    assume o: "rangeOrder (classDocCounts nb) classOrder
      \<and> rangeOrder (Some (fst (predictScores U nb classOrder text))) scoreOrder"
      and h: "(\<exists>C. scored nb C)
        \<and> (\<forall>C. scored nb C \<longrightarrow> (\<exists>x. rawScore nb (tokenize U text) C = Finite x))"
    show "\<exists>p. (\<forall>C. scored nb C \<longrightarrow>
                snd (Predict U nb classOrder scoreOrder text) C = Some (Finite (p C)) \<and> 0 \<le> p C)
             \<and> (\<Sum>C | scored nb C. p C) = 1"
      by (rule c) (use o h in simp_all)
  next
    assume o: "rangeOrder (classDocCounts nb) classOrder
      \<and> rangeOrder (Some (fst (predictScores U nb classOrder text))) scoreOrder"
      and h: "(\<exists>C. scored nb C) \<and> reachable U nb
        \<and> (vocabulary nb \<noteq> {||} \<or> tokenize U text = [])"
    from h have "\<forall>C. scored nb C \<longrightarrow> (\<exists>x. rawScore nb (tokenize U text) C = Finite x)"
      by (intro d) simp_all
    with o h show "\<exists>p. (\<forall>C. scored nb C \<longrightarrow>
                snd (Predict U nb classOrder scoreOrder text) C = Some (Finite (p C)) \<and> 0 \<le> p C)
             \<and> (\<Sum>C | scored nb C. p C) = 1"
      by (intro c) simp_all
  qed
qed


lemma scored_trainedOnce: "scored trainedOnce C \<longleftrightarrow> C = ''pos''"
  by (simp add: scored_def intAt_def trainedOnce_def)

lemma rawScore_trainedOnce: "rawScore trainedOnce [''good''] ''pos'' = Finite 0"
  by (simp add: rawScore_def smoothedTerm_def tokenCount_def intAt_def mapAt_def trainedOnce_def
      float64_of_int_def fcard_finsert_if)

theorem predict_distribution_witness:
  "\<not> (\<exists>C. scored (NewNaiveBayesClassifier :: char NaiveBayesClassifier) C)
   \<and> Predict ascii NewNaiveBayesClassifier [] [] ''good'' = ([], Map.empty)
   \<and> rangeOrder (classDocCounts trainedOnce) [''pos'']
   \<and> rangeOrder (Some (fst (predictScores ascii trainedOnce [''pos''] ''good''))) [''pos'']
   \<and> scored trainedOnce ''pos''
   \<and> \<not> (\<exists>C. scored trainedOnce C \<and> C \<noteq> ''pos'')
   \<and> rawScore trainedOnce (tokenize ascii ''good'') ''pos'' = Finite 0
   \<and> reachable ascii trainedOnce \<and> vocabulary trainedOnce \<noteq> {||}
   \<and> dom (snd (Predict ascii trainedOnce [''pos''] [''pos''] ''good'')) = {''pos''}
   \<and> snd (Predict ascii trainedOnce [''pos''] [''pos''] ''good'') ''pos'' = Some (Finite 1)"
proof -
  let ?new = "NewNaiveBayesClassifier :: char NaiveBayesClassifier"
  have none: "\<not> (\<exists>C. scored ?new C)"
    by (simp add: scored_def intAt_def NewNaiveBayesClassifier_def)
  from predict_distribution[of ?new ascii "[]" "[]" "''good''"] none
  have empty: "Predict ascii ?new [] [] ''good'' = ([], Map.empty)" by blast
  have o1: "rangeOrder (classDocCounts trainedOnce) [''pos'']"
    by (simp add: rangeOrder_def keys_def trainedOnce_def)
  have set: "{C. scored trainedOnce C} = {''pos''}" using scored_trainedOnce by auto
  have o2: "rangeOrder (Some (fst (predictScores ascii trainedOnce [''pos''] ''good''))) [''pos'']"
    using set by (simp add: predictScores_ranged[OF o1] rangeOrder_def keys_def scores_dom)
  have sp: "scored trainedOnce ''pos''" by (simp add: scored_trainedOnce)
  have only: "\<not> (\<exists>C. scored trainedOnce C \<and> C \<noteq> ''pos'')" using scored_trainedOnce by blast
  have raw: "rawScore trainedOnce (tokenize ascii ''good'') ''pos'' = Finite 0"
    by (simp add: tok_good rawScore_trainedOnce)
  have fin: "\<forall>C. scored trainedOnce C \<longrightarrow> (\<exists>x. rawScore trainedOnce (tokenize ascii ''good'') C = Finite x)"
    using raw by (simp add: scored_trainedOnce)
  note t = predict_distribution[of trainedOnce ascii "[''pos'']" "[''pos'']" "''good''"]
  from t o1 o2 have "dom (snd (Predict ascii trainedOnce [''pos''] [''pos''] ''good'')) = {C. scored trainedOnce C}"
    by blast
  then have dom: "dom (snd (Predict ascii trainedOnce [''pos''] [''pos''] ''good'')) = {''pos''}"
    by (simp only: set)
  from t o1 o2 sp fin obtain p where
    p: "\<forall>C. scored trainedOnce C \<longrightarrow>
          snd (Predict ascii trainedOnce [''pos''] [''pos''] ''good'') C = Some (Finite (p C)) \<and> 0 \<le> p C"
    and one: "(\<Sum>C | scored trainedOnce C. p C) = 1" by blast
  from one have "p ''pos'' = 1" by (simp add: set)
  with p sp have val: "snd (Predict ascii trainedOnce [''pos''] [''pos''] ''good'') ''pos'' = Some (Finite 1)"
    by auto
  have "trainFits ascii NewNaiveBayesClassifier ''good'' ''pos''"
    by (rule trainFits_New) (simp add: tok_good maxInt_def)
  then have re: "reachable ascii trainedOnce" by (rule reach_train[OF reach_new _ trainedOnce_trained])
  have voc: "vocabulary trainedOnce \<noteq> {||}" by (simp add: trainedOnce_def)
  from none empty o1 o2 sp only raw re voc dom val show ?thesis by blast
qed

text \<open>
  The claim as stated fails in both directions. After \<open>Train("!!", "pos")\<close> the class
  \<open>pos\<close> has a positive count and the vocabulary is empty; for the text \<open>"hello"\<close>
  the smoothed term is \<open>log(1 / 0) = +Inf\<close>, the raw score is \<open>+Inf\<close>, and the
  distribution holds \<open>exp(Inf - Inf) = NaN\<close>. In the state loaded from a snapshot that
  counts class \<open>a\<close> \<open>-1\<close> times among \<open>-1\<close> documents no class has a positive
  count, yet the class is scored (its count is not 0): the label is \<open>a\<close> and the
  distribution gives it 1.
\<close>

theorem predict_distribution_fails:
  "Train ascii NewNaiveBayesClassifier ''!!'' ''pos'' = Inr trainedWithoutTokens
   \<and> 0 < intAt (classDocCounts trainedWithoutTokens) ''pos''
   \<and> rangeOrder (classDocCounts trainedWithoutTokens) [''pos'']
   \<and> snd (Predict ascii trainedWithoutTokens [''pos''] [''pos''] ''hello'') ''pos'' = Some NaN
   \<and> (\<forall>C. \<not> 0 < intAt (classDocCounts (LoadSnapshot NewNaiveBayesClassifier negativeSnapshot)) C)
   \<and> fst (Predict ascii (LoadSnapshot NewNaiveBayesClassifier negativeSnapshot) [''a''] [''a''] []) = ''a''
   \<and> snd (Predict ascii (LoadSnapshot NewNaiveBayesClassifier negativeSnapshot) [''a''] [''a''] []) ''a''
       = Some (Finite 1)"
proof -
  have "0 < intAt (classDocCounts trainedWithoutTokens) ''pos''"
    and "rangeOrder (classDocCounts trainedWithoutTokens) [''pos'']"
    by (simp_all add: intAt_def rangeOrder_def keys_def trainedWithoutTokens_def)
  moreover have "snd (Predict ascii trainedWithoutTokens [''pos''] [''pos''] ''hello'') ''pos'' = Some NaN"
    by (simp add: Predict_def tok_hello trainedWithoutTokens_def intAt_def mapAt_def Let_def
        float64_of_int_def normalizeScores_def)
  moreover have "\<forall>C. \<not> 0 < intAt (classDocCounts (LoadSnapshot NewNaiveBayesClassifier negativeSnapshot)) C"
    by (simp add: LoadSnapshot_def negativeSnapshot_def copyIntMap_id intAt_def)
  moreover have "fst (Predict ascii (LoadSnapshot NewNaiveBayesClassifier negativeSnapshot) [''a''] [''a''] []) = ''a''"
    and "snd (Predict ascii (LoadSnapshot NewNaiveBayesClassifier negativeSnapshot) [''a''] [''a''] []) ''a''
       = Some (Finite 1)"
    by (simp_all add: Predict_def tok_empty LoadSnapshot_def negativeSnapshot_def copyIntMap_id
        copyNestedMap_id intAt_def mapAt_def Let_def float64_of_int_def normalizeScores_def)
  ultimately show ?thesis using trainedWithoutTokens_trained by blast
qed

end
